theory Spec2Isabelle
  imports Main "HOL-Library.Word" "HOL-Library.Signed_Division" "HOL-Library.Multiset"
    "HOL-Library.Sublist"
begin

section \<open>Data model (treenode.h)\<close>

text \<open>
  \<^verbatim>\<open>struct MinHNode { char item; double freq; struct MinHNode *left, *right; }\<close>.
  A child pointer is either \<^verbatim>\<open>NULL\<close> (\<open>None\<close>) or owns a node. The tree is strictly
  hierarchical, so a node is modelled by value. The type \<open>'f\<close> of frequencies stands for
  \<^verbatim>\<open>double\<close>: the code only compares frequencies with \<^verbatim>\<open><\<close> and adds them, so the
  operations are defined for any type with \<open><\<close> and \<open>+\<close>; the heap-order results ask for
  a linear order (doubles without NaN). The type \<open>double\<close> itself, with its rounded addition,
  is given below, after the program.
\<close>

datatype 'f MinHNode =
  MinHNode (item: char) (freq: 'f) (left: "'f MinHNode option") (right: "'f MinHNode option")

text \<open>
  \<^verbatim>\<open>struct MinHeap { unsigned size; unsigned capacity; struct MinHNode **array; }\<close>.
  \<^verbatim>\<open>unsigned\<close> is a 32-bit word (arithmetic wraps). The array holds \<open>capacity\<close> pointers;
  a slot that was never written is \<open>None\<close>.
\<close>

record 'f MinHeap =
  size_h :: "32 word"
  capacity :: "32 word"
  array :: "'f MinHNode option list"

text \<open>
  The C code checks no array bound. An access outside the allocated array, or a read of a
  slot that was never written, is undefined behaviour in C; the model stops there with a
  \<open>fault\<close> that records the index. Array indices are C \<^verbatim>\<open>int\<close>s, modelled as \<open>int\<close>.
\<close>

datatype fault = OutOfBounds int | Uninitialised int

definition rd :: "'f MinHeap \<Rightarrow> int \<Rightarrow> fault + 'f MinHNode" where
  "rd h i =
     (if 0 \<le> i \<and> i < int (length (array h))
      then (case array h ! nat i of None \<Rightarrow> Inl (Uninitialised i) | Some p \<Rightarrow> Inr p)
      else Inl (OutOfBounds i))"

definition wr :: "'f MinHeap \<Rightarrow> int \<Rightarrow> 'f MinHNode \<Rightarrow> fault + 'f MinHeap" where
  "wr h i p =
     (if 0 \<le> i \<and> i < int (length (array h))
      then Inr (h\<lparr>array := (array h)[nat i := Some p]\<rparr>)
      else Inl (OutOfBounds i))"

section \<open>MinHeap operations (treenode.c, lines 19-109)\<close>

definition newNode :: "char \<Rightarrow> 'f \<Rightarrow> 'f MinHNode" where
  "newNode it fr = MinHNode it fr None None"

definition createMinH :: "32 word \<Rightarrow> 'f MinHeap" where
  "createMinH cap = \<lparr>size_h = 0, capacity = cap, array = replicate (unat cap) None\<rparr>"

text \<open>\<^verbatim>\<open>swapMinHNode(&array[a], &array[b])\<close>: the two slots are given by their indices.\<close>

definition swapMinHNode :: "'f MinHeap \<Rightarrow> int \<Rightarrow> int \<Rightarrow> fault + 'f MinHeap" where
  "swapMinHNode h a b =
     (case rd h a of Inl e \<Rightarrow> Inl e | Inr t \<Rightarrow>
      (case rd h b of Inl e \<Rightarrow> Inl e | Inr q \<Rightarrow>
       (case wr h a q of Inl e \<Rightarrow> Inl e | Inr h1 \<Rightarrow> wr h1 b t)))"

text \<open>
  The two comparisons of \<^verbatim>\<open>minHeapify\<close> (lines 46-54), which choose \<^verbatim>\<open>smallest\<close>.
  \<^verbatim>\<open>left < minHeap->size\<close> compares an \<^verbatim>\<open>int\<close> with an \<^verbatim>\<open>unsigned\<close>: the \<^verbatim>\<open>int\<close> is
  converted to \<^verbatim>\<open>unsigned\<close>. \<^verbatim>\<open>&&\<close> reads the array only when the index test passed.
\<close>

definition smallest_of :: "('f::ord) MinHeap \<Rightarrow> int \<Rightarrow> fault + int" where
  "smallest_of h idx =
     (let left = 2 * idx + 1; right = 2 * idx + 2 in
      case (if (word_of_int left :: 32 word) < size_h h
            then (case rd h left of Inl e \<Rightarrow> Inl e | Inr l \<Rightarrow>
                  (case rd h idx of Inl e \<Rightarrow> Inl e | Inr s \<Rightarrow>
                   Inr (if freq l < freq s then left else idx)))
            else Inr idx) of
        Inl e \<Rightarrow> Inl e
      | Inr smallest \<Rightarrow>
          if (word_of_int right :: 32 word) < size_h h
          then (case rd h right of Inl e \<Rightarrow> Inl e | Inr r \<Rightarrow>
                (case rd h smallest of Inl e \<Rightarrow> Inl e | Inr s \<Rightarrow>
                 Inr (if freq r < freq s then right else smallest)))
          else Inr smallest)"

function minHeapify :: "('f::ord) MinHeap \<Rightarrow> int \<Rightarrow> fault + 'f MinHeap" where
  "minHeapify h idx =
     (case smallest_of h idx of Inl e \<Rightarrow> Inl e | Inr smallest \<Rightarrow>
        if smallest \<noteq> idx
        then (case swapMinHNode h smallest idx of Inl e \<Rightarrow> Inl e | Inr h' \<Rightarrow>
              minHeapify h' smallest)
        else Inr h)"
  by pat_completeness auto

lemma rd_Inr_bounds: "rd h i = Inr p \<Longrightarrow> 0 \<le> i \<and> i < int (length (array h))"
  by (auto simp: rd_def split: if_splits)

lemma rd_Inr_iff:
  "rd h i = Inr p \<longleftrightarrow> 0 \<le> i \<and> i < int (length (array h)) \<and> array h ! nat i = Some p"
  by (auto simp: rd_def split: if_splits option.splits)

lemma wr_Inr_iff:
  "wr h i p = Inr h' \<longleftrightarrow>
     0 \<le> i \<and> i < int (length (array h)) \<and> h' = h\<lparr>array := (array h)[nat i := Some p]\<rparr>"
  by (auto simp: wr_def)

lemma swapMinHNode_Inr_iff:
  "swapMinHNode h a b = Inr h' \<longleftrightarrow>
     (\<exists>t q. rd h a = Inr t \<and> rd h b = Inr q \<and>
        h' = h\<lparr>array := (array h)[nat a := Some q, nat b := Some t]\<rparr>)"
  by (auto simp: swapMinHNode_def wr_def rd_def split: sum.splits if_splits option.splits)

lemma smallest_of_range:
  assumes "smallest_of h idx = Inr s" and "s \<noteq> idx"
  shows "0 \<le> idx \<and> idx < s \<and> s < int (length (array h)) \<and> (s = 2 * idx + 1 \<or> s = 2 * idx + 2)"
  using assms
  by (auto simp: smallest_of_def Let_def rd_Inr_iff split: if_splits sum.splits)

termination minHeapify
proof (relation "measure (\<lambda>(h, idx). nat (int (length (array h)) - idx))")
  show "wf (measure (\<lambda>(h :: ('f::ord) MinHeap, idx). nat (int (length (array h)) - idx)))"
    by simp
next
  fix h :: "('f::ord) MinHeap" and idx s h'
  assume "smallest_of h idx = Inr s" "s \<noteq> idx" "swapMinHNode h s idx = Inr h'"
  then show "((h', s), (h, idx)) \<in> measure (\<lambda>(h, idx). nat (int (length (array h)) - idx))"
    using smallest_of_range [of h idx s]
    by (auto simp: swapMinHNode_Inr_iff)
qed

declare minHeapify.simps [simp del]

definition checkSizeOne :: "'f MinHeap \<Rightarrow> bool" where
  "checkSizeOne h = (size_h h = 1)"

text \<open>
  \<^verbatim>\<open>extractMin\<close> returns the extracted node together with the updated heap.
  \<^verbatim>\<open>minHeap->size - 1\<close> is unsigned arithmetic: on \<open>size = 0\<close> it is \<open>2^32 - 1\<close>.
\<close>

definition extractMin :: "('f::ord) MinHeap \<Rightarrow> fault + ('f MinHNode \<times> 'f MinHeap)" where
  "extractMin h =
     (case rd h 0 of Inl e \<Rightarrow> Inl e | Inr temp \<Rightarrow>
      (case rd h (uint (size_h h - 1)) of Inl e \<Rightarrow> Inl e | Inr lst \<Rightarrow>
       (case wr h 0 lst of Inl e \<Rightarrow> Inl e | Inr h1 \<Rightarrow>
        (case minHeapify (h1\<lparr>size_h := size_h h1 - 1\<rparr>) 0 of Inl e \<Rightarrow> Inl e
         | Inr h2 \<Rightarrow> Inr (temp, h2)))))"

text \<open>
  The \<^verbatim>\<open>while\<close> loop of \<^verbatim>\<open>insertMinHeap\<close> (lines 80-83); \<^verbatim>\<open>(i - 1) / 2\<close> is C's
  truncating division. The loop returns the heap and the final \<open>i\<close>.
\<close>

function insertMinHeap_loop ::
  "('f::ord) MinHeap \<Rightarrow> 'f MinHNode \<Rightarrow> int \<Rightarrow> fault + ('f MinHeap \<times> int)" where
  "insertMinHeap_loop h nd i =
     (if i \<noteq> 0
      then (case rd h ((i - 1) sdiv 2) of Inl e \<Rightarrow> Inl e | Inr p \<Rightarrow>
            if freq nd < freq p
            then (case wr h i p of Inl e \<Rightarrow> Inl e | Inr h' \<Rightarrow>
                  insertMinHeap_loop h' nd ((i - 1) sdiv 2))
            else Inr (h, i))
      else Inr (h, i))"
  by pat_completeness auto

lemma sdiv2_nonneg: "0 \<le> (a::int) \<Longrightarrow> a sdiv 2 = a div 2"
  by (simp add: signed_divide_int_def sgn_if)

termination insertMinHeap_loop
proof (relation "measure (\<lambda>(h, nd, i). nat i)")
  show "wf (measure (\<lambda>(h :: ('f::ord) MinHeap, nd :: 'f MinHNode, i). nat i))"
    by simp
next
  fix h :: "('f::ord) MinHeap" and nd :: "'f MinHNode" and i p h'
  assume "i \<noteq> 0" "wr h i p = Inr h'"
  then have "0 < i" by (auto simp: wr_Inr_iff)
  then show "((h', nd, (i - 1) sdiv 2), (h, nd, i)) \<in> measure (\<lambda>(h, nd, i). nat i)"
    by (simp add: sdiv2_nonneg)
qed

declare insertMinHeap_loop.simps [simp del]

definition insertMinHeap :: "('f::ord) MinHeap \<Rightarrow> 'f MinHNode \<Rightarrow> fault + 'f MinHeap" where
  "insertMinHeap h nd =
     (let h1 = h\<lparr>size_h := size_h h + 1\<rparr> in
      case insertMinHeap_loop h1 nd (sint (size_h h1 - 1)) of Inl e \<Rightarrow> Inl e
      | Inr (h2, i) \<Rightarrow> wr h2 i nd)"

function buildMinHeap_loop :: "('f::ord) MinHeap \<Rightarrow> int \<Rightarrow> fault + 'f MinHeap" where
  "buildMinHeap_loop h i =
     (if i \<ge> 0
      then (case minHeapify h i of Inl e \<Rightarrow> Inl e | Inr h' \<Rightarrow> buildMinHeap_loop h' (i - 1))
      else Inr h)"
  by pat_completeness auto

termination
  by (relation "measure (\<lambda>(h, i). nat (i + 1))") auto

declare buildMinHeap_loop.simps [simp del]

definition buildMinHeap :: "('f::ord) MinHeap \<Rightarrow> fault + 'f MinHeap" where
  "buildMinHeap h = (let n = sint (size_h h - 1) in buildMinHeap_loop h ((n - 1) sdiv 2))"

definition isLeaf :: "'f MinHNode \<Rightarrow> bool" where
  "isLeaf root = (left root = None \<and> right root = None)"

text \<open>
  The filling loop of \<^verbatim>\<open>createAndBuildMinHeap\<close> (lines 102-103). The arrays \<^verbatim>\<open>item\<close> and
  \<^verbatim>\<open>freq\<close> are lists; reading past their end is a fault.
\<close>

function createAndBuildMinHeap_fill ::
  "'f MinHeap \<Rightarrow> char list \<Rightarrow> 'f list \<Rightarrow> int \<Rightarrow> int \<Rightarrow> fault + 'f MinHeap" where
  "createAndBuildMinHeap_fill h its frs sz i =
     (if i < sz
      then (if 0 \<le> i \<and> nat i < length its \<and> nat i < length frs
            then (case wr h i (newNode (its ! nat i) (frs ! nat i)) of Inl e \<Rightarrow> Inl e
                  | Inr h' \<Rightarrow> createAndBuildMinHeap_fill h' its frs sz (i + 1))
            else Inl (OutOfBounds i))
      else Inr h)"
  by pat_completeness auto

termination
  by (relation "measure (\<lambda>(h, its, frs, sz, i). nat (sz - i))") auto

declare createAndBuildMinHeap_fill.simps [simp del]

definition createAndBuildMinHeap ::
  "char list \<Rightarrow> ('f::ord) list \<Rightarrow> int \<Rightarrow> fault + 'f MinHeap" where
  "createAndBuildMinHeap its frs sz =
     (case createAndBuildMinHeap_fill (createMinH (word_of_int sz)) its frs sz 0 of
        Inl e \<Rightarrow> Inl e
      | Inr h \<Rightarrow> buildMinHeap (h\<lparr>size_h := word_of_int sz\<rparr>))"

subsection \<open>What the heap operations keep: size, capacity and array length\<close>

lemma minHeapify_frame:
  "minHeapify h idx = Inr h' \<Longrightarrow>
     size_h h' = size_h h \<and> capacity h' = capacity h \<and> length (array h') = length (array h)"
proof (induction h idx arbitrary: h' rule: minHeapify.induct)
  case (1 h idx)
  from "1.prems" obtain s where s: "smallest_of h idx = Inr s"
    by (subst (asm) minHeapify.simps) (auto split: sum.splits)
  show ?case
  proof (cases "s = idx")
    case True
    with s "1.prems" show ?thesis
      by (subst (asm) minHeapify.simps) simp
  next
    case False
    with s "1.prems" obtain h1 where h1: "swapMinHNode h s idx = Inr h1"
      and r: "minHeapify h1 s = Inr h'"
      by (subst (asm) minHeapify.simps) (auto split: sum.splits)
    from "1.IH" [OF s False h1 r] h1 show ?thesis
      by (auto simp: swapMinHNode_Inr_iff)
  qed
qed

lemma extractMin_size:
  "extractMin h = Inr (x, h') \<Longrightarrow> size_h h' = size_h h - 1 \<and> capacity h' = capacity h"
  by (auto simp: extractMin_def wr_Inr_iff split: sum.splits dest!: minHeapify_frame)

lemma insertMinHeap_loop_frame:
  "insertMinHeap_loop h nd i = Inr (h', j) \<Longrightarrow>
     size_h h' = size_h h \<and> capacity h' = capacity h \<and> length (array h') = length (array h)"
proof (induction h nd i arbitrary: h' j rule: insertMinHeap_loop.induct)
  case (1 h nd i)
  show ?case
  proof (cases "i \<noteq> 0 \<and> (\<exists>p. rd h ((i - 1) sdiv 2) = Inr p \<and> freq nd < freq p)")
    case True
    then obtain p where p: "i \<noteq> 0" "rd h ((i - 1) sdiv 2) = Inr p" "freq nd < freq p"
      by blast
    with "1.prems" obtain h1 where h1: "wr h i p = Inr h1"
      and r: "insertMinHeap_loop h1 nd ((i - 1) sdiv 2) = Inr (h', j)"
      by (subst (asm) insertMinHeap_loop.simps) (auto split: sum.splits)
    from "1.IH" [OF p h1 r] h1 show ?thesis
      by (auto simp: wr_Inr_iff)
  next
    case False
    with "1.prems" show ?thesis
      by (subst (asm) insertMinHeap_loop.simps) (auto split: sum.splits if_splits)
  qed
qed

lemma insertMinHeap_size:
  "insertMinHeap h nd = Inr h' \<Longrightarrow> size_h h' = size_h h + 1 \<and> capacity h' = capacity h"
  by (auto simp: insertMinHeap_def Let_def wr_Inr_iff split: sum.splits prod.splits
      dest!: insertMinHeap_loop_frame)

section \<open>Tree construction (treenode.c, lines 171-187)\<close>

text \<open>
  The \<^verbatim>\<open>while (!checkSizeOne(minHeap))\<close> loop of \<^verbatim>\<open>buildHuffmanTree\<close>. The new internal node
  is \<^verbatim>\<open>newNode('$', left->freq + right->freq)\<close> with both child pointers set.
\<close>

function buildHuffmanTree_loop :: "('f::{ord,plus}) MinHeap \<Rightarrow> fault + 'f MinHeap" where
  "buildHuffmanTree_loop h =
     (if \<not> checkSizeOne h
      then (case extractMin h of Inl e \<Rightarrow> Inl e | Inr (l, h1) \<Rightarrow>
            (case extractMin h1 of Inl e \<Rightarrow> Inl e | Inr (r, h2) \<Rightarrow>
             (let top = MinHNode (CHR ''$'') (freq l + freq r) (Some l) (Some r) in
              case insertMinHeap h2 top of Inl e \<Rightarrow> Inl e | Inr h3 \<Rightarrow>
                buildHuffmanTree_loop h3)))
      else Inr h)"
  by pat_completeness auto

lemma word32_pred_less: "(w :: 32 word) \<noteq> 0 \<Longrightarrow> unat (w - 1) < unat w"
  by (simp add: unat_minus_one unat_gt_0)

termination buildHuffmanTree_loop
proof (relation "measure (\<lambda>h. unat (size_h h - 1))")
  show "wf (measure (\<lambda>h :: ('f::{ord,plus}) MinHeap. unat (size_h h - 1)))"
    by simp
next
  fix h :: "('f::{ord,plus}) MinHeap" and x l h1 y r h2 top h3
  assume ns: "\<not> checkSizeOne h" and e1: "extractMin h = Inr x" and x: "(l, h1) = x"
    and e2: "extractMin h1 = Inr y" and y: "(r, h2) = y"
    and ins: "insertMinHeap h2 top = Inr h3"
  from e1 x have "size_h h1 = size_h h - 1" using extractMin_size [of h l h1] by simp
  moreover from e2 y have "size_h h2 = size_h h1 - 1" using extractMin_size [of h1 r h2] by simp
  moreover from ins have "size_h h3 = size_h h2 + 1" using insertMinHeap_size by blast
  ultimately have "size_h h3 = size_h h - 1" by simp
  moreover from ns have "size_h h - 1 \<noteq> 0" by (simp add: checkSizeOne_def)
  ultimately show "(h3, h) \<in> measure (\<lambda>h. unat (size_h h - 1))"
    using word32_pred_less [of "size_h h - 1"] by simp
qed

declare buildHuffmanTree_loop.simps [simp del]

definition buildHuffmanTree ::
  "char list \<Rightarrow> ('f::{ord,plus}) list \<Rightarrow> int \<Rightarrow> fault + 'f MinHNode" where
  "buildHuffmanTree its frs sz =
     (case createAndBuildMinHeap its frs sz of Inl e \<Rightarrow> Inl e | Inr h \<Rightarrow>
      (case buildHuffmanTree_loop h of Inl e \<Rightarrow> Inl e | Inr h' \<Rightarrow>
       (case extractMin h' of Inl e \<Rightarrow> Inl e | Inr (root, h'') \<Rightarrow> Inr root)))"

section \<open>Code derivation (treenode.c, lines 157-169 and 189-201)\<close>

definition ASCII_SIZE :: int where
  "ASCII_SIZE = 128"

text \<open>
  The path buffer \<^verbatim>\<open>int arr[ASCII_SIZE]\<close> is a local array that starts uninitialised:
  a list of \<open>ASCII_SIZE\<close> slots, \<open>None\<close> where nothing was written yet.
\<close>

definition fresh_arr :: "int option list" where
  "fresh_arr = replicate (nat ASCII_SIZE) None"

definition arr_rd :: "int option list \<Rightarrow> int \<Rightarrow> fault + int" where
  "arr_rd arr i =
     (if 0 \<le> i \<and> i < int (length arr)
      then (case arr ! nat i of None \<Rightarrow> Inl (Uninitialised i) | Some v \<Rightarrow> Inr v)
      else Inl (OutOfBounds i))"

definition arr_wr :: "int option list \<Rightarrow> int \<Rightarrow> int \<Rightarrow> fault + int option list" where
  "arr_wr arr i v =
     (if 0 \<le> i \<and> i < int (length arr) then Inr (arr[nat i := Some v]) else Inl (OutOfBounds i))"

text \<open>\<^verbatim>\<open>fprintf(output, "%d", v)\<close>: the decimal digits of an \<^verbatim>\<open>int\<close>.\<close>

function dec_nat :: "nat \<Rightarrow> string" where
  "dec_nat n =
     (if n < 10 then [char_of (48 + n)] else dec_nat (n div 10) @ [char_of (48 + n mod 10)])"
  by pat_completeness auto

termination
  by (relation "measure id") auto

declare dec_nat.simps [simp del]

definition fprintf_d :: "int \<Rightarrow> string" where
  "fprintf_d v = (if v < 0 then CHR ''-'' # dec_nat (nat (- v)) else dec_nat (nat v))"

text \<open>
  An output \<^verbatim>\<open>FILE *\<close> is the string written so far; every write appends. The copies that
  \<^verbatim>\<open>printArray\<close> sends to the standard output are not part of the file and are left out.
\<close>

function printArray_loop :: "int option list \<Rightarrow> int \<Rightarrow> int \<Rightarrow> string \<Rightarrow> fault + string" where
  "printArray_loop arr n i out =
     (if i < n
      then (case arr_rd arr i of Inl e \<Rightarrow> Inl e
            | Inr v \<Rightarrow> printArray_loop arr n (i + 1) (out @ fprintf_d v))
      else Inr out)"
  by pat_completeness auto

termination
  by (relation "measure (\<lambda>(arr, n, i, out). nat (n - i))") auto

declare printArray_loop.simps [simp del]

definition printArray :: "int option list \<Rightarrow> int \<Rightarrow> string \<Rightarrow> bool \<Rightarrow> fault + string" where
  "printArray arr n out printNewline =
     (case printArray_loop arr n 0 out of Inl e \<Rightarrow> Inl e
      | Inr out' \<Rightarrow> Inr (if printNewline then out' @ [CHR 0x0A] else out'))"

text \<open>
  \<^verbatim>\<open>printHCodeForCharacter\<close> walks the whole tree. It returns the path buffer (the callee
  writes into the caller's array) and the output file; \<open>top'\<close> is the parameter \<^verbatim>\<open>top\<close>.
\<close>

fun printHCodeForCharacter ::
  "'f MinHNode \<Rightarrow> char \<Rightarrow> int option list \<Rightarrow> int \<Rightarrow> string \<Rightarrow> bool \<Rightarrow>
     fault + (int option list \<times> string)" where
  "printHCodeForCharacter (MinHNode it fr lft rgt) target arr top' out printNewline =
     (case (case lft of None \<Rightarrow> Inr (arr, out)
            | Some l \<Rightarrow>
                (case arr_wr arr top' 0 of Inl e \<Rightarrow> Inl e
                 | Inr arr1 \<Rightarrow> printHCodeForCharacter l target arr1 (top' + 1) out printNewline)) of
        Inl e \<Rightarrow> Inl e
      | Inr (arr2, out2) \<Rightarrow>
          (case (case rgt of None \<Rightarrow> Inr (arr2, out2)
                 | Some r \<Rightarrow>
                     (case arr_wr arr2 top' 1 of Inl e \<Rightarrow> Inl e
                      | Inr arr3 \<Rightarrow>
                          printHCodeForCharacter r target arr3 (top' + 1) out2 printNewline)) of
             Inl e \<Rightarrow> Inl e
           | Inr (arr4, out4) \<Rightarrow>
               if isLeaf (MinHNode it fr lft rgt) \<and> it = target
               then (case printArray arr4 top' out4 printNewline of Inl e \<Rightarrow> Inl e
                     | Inr out5 \<Rightarrow> Inr (arr4, out5))
               else Inr (arr4, out4)))"

declare printHCodeForCharacter.simps [simp del]

section \<open>Commands (treenode.c, lines 203-319)\<close>

text \<open>
  The probability file is read by \<^verbatim>\<open>readProbabilitiesFromFile\<close> into a table of
  \<open>ASCII_SIZE\<close> doubles; the commands below take the table as a list. The files are the
  strings they hold. Failures to open a file or to parse a number end the process and are
  not modelled.
\<close>

text \<open>\<^verbatim>\<open>ascii_characters[i] = (char)i\<close> for \<open>i = 0, ..., ASCII_SIZE - 1\<close>.\<close>

definition ascii_characters :: "char list" where
  "ascii_characters = map char_of [0..<nat ASCII_SIZE]"

text \<open>\<^verbatim>\<open>(int)c\<close> for a \<^verbatim>\<open>char\<close>, which is a signed byte.\<close>

definition int_of_char :: "char \<Rightarrow> int" where
  "int_of_char c = (if (of_char c :: int) < 128 then of_char c else of_char c - 256)"

fun encodeFile_loop :: "'f MinHNode \<Rightarrow> string \<Rightarrow> string \<Rightarrow> fault + string" where
  "encodeFile_loop root [] out = Inr out"
| "encodeFile_loop root (ch # input) out =
     (case printHCodeForCharacter root ch fresh_arr 0 out False of Inl e \<Rightarrow> Inl e
      | Inr (arr, out') \<Rightarrow> encodeFile_loop root input out')"

text \<open>\<open>encodeFile dataFile probabilities\<close> is the content of the encoded file.\<close>

definition encodeFile :: "string \<Rightarrow> ('f::{ord,plus}) list \<Rightarrow> fault + string" where
  "encodeFile dataFile probabilities =
     (case buildHuffmanTree ascii_characters probabilities ASCII_SIZE of Inl e \<Rightarrow> Inl e
      | Inr root \<Rightarrow> encodeFile_loop root dataFile [])"

text \<open>
  One iteration of the \<^verbatim>\<open>while\<close> loop of \<^verbatim>\<open>decodeFile\<close> (lines 305-314): the state is
  \<^verbatim>\<open>currentNode\<close> and the output written so far.
\<close>

definition decodeFile_step ::
  "'f MinHNode \<Rightarrow> 'f MinHNode \<times> string \<Rightarrow> char \<Rightarrow> 'f MinHNode \<times> string" where
  "decodeFile_step root st bit' =
     (let currentNode = fst st; out = snd st;
          moved =
            (if bit' = CHR ''0'' \<and> left currentNode \<noteq> None then the (left currentNode)
             else if bit' = CHR ''1'' \<and> right currentNode \<noteq> None then the (right currentNode)
             else currentNode)
      in if isLeaf moved then (root, out @ [item moved]) else (moved, out))"

fun decodeFile_loop ::
  "'f MinHNode \<Rightarrow> 'f MinHNode \<times> string \<Rightarrow> string \<Rightarrow> 'f MinHNode \<times> string" where
  "decodeFile_loop root st [] = st"
| "decodeFile_loop root st (bit' # input) = decodeFile_loop root (decodeFile_step root st bit') input"

text \<open>\<open>decodeFile encodedFile probabilities\<close> is the content of the decoded file.\<close>

definition decodeFile :: "string \<Rightarrow> ('f::{ord,plus}) list \<Rightarrow> fault + string" where
  "decodeFile encodedFile probabilities =
     (case buildHuffmanTree ascii_characters probabilities ASCII_SIZE of Inl e \<Rightarrow> Inl e
      | Inr root \<Rightarrow> Inr (snd (decodeFile_loop root (root, []) encodedFile)))"

text \<open>The \<^verbatim>\<open>for\<close> loop of \<^verbatim>\<open>generateAndPrintHuffmanCodes\<close> (lines 223-234).\<close>

function generateAndPrintHuffmanCodes_loop ::
  "'f MinHNode \<Rightarrow> int \<Rightarrow> string \<Rightarrow> fault + string" where
  "generateAndPrintHuffmanCodes_loop root i out =
     (if i < ASCII_SIZE
      then (if 0 \<le> i \<and> nat i < length ascii_characters
            then (let asciiValue = int_of_char (ascii_characters ! nat i) in
                  if asciiValue \<ge> 32 \<and> asciiValue \<le> 126
                  then (case printHCodeForCharacter root (ascii_characters ! nat i)
                               fresh_arr 0 out True of
                          Inl e \<Rightarrow> Inl e
                        | Inr (arr, out') \<Rightarrow> generateAndPrintHuffmanCodes_loop root (i + 1) out')
                  else generateAndPrintHuffmanCodes_loop root (i + 1)
                         (out @ ''No code'' @ [CHR 0x0A]))
            else Inl (OutOfBounds i))
      else Inr out)"
  by pat_completeness auto

termination
  by (relation "measure (\<lambda>(root, i, out). nat (ASCII_SIZE - i))") auto

declare generateAndPrintHuffmanCodes_loop.simps [simp del]

text \<open>\<open>generateAndPrintHuffmanCodes probabilities\<close> is the content of the code listing file.\<close>

definition generateAndPrintHuffmanCodes :: "('f::{ord,plus}) list \<Rightarrow> fault + string" where
  "generateAndPrintHuffmanCodes probabilities =
     (case buildHuffmanTree ascii_characters probabilities ASCII_SIZE of Inl e \<Rightarrow> Inl e
      | Inr root \<Rightarrow> generateAndPrintHuffmanCodes_loop root 0 [])"

section \<open>Frequency counting (probability.c, lines 13-36)\<close>

text \<open>
  \<^verbatim>\<open>typedef struct { unsigned int frequencies[ASCII_SIZE]; } ProbabilityData\<close>.
\<close>

record ProbabilityData =
  frequencies :: "32 word list"

definition initializeProb :: "ProbabilityData" where
  "initializeProb = \<lparr>frequencies = replicate (nat ASCII_SIZE) 0\<rparr>"

text \<open>
  The loop of \<^verbatim>\<open>getFreq\<close>: \<^verbatim>\<open>fgetc\<close> gives the next byte as an \<^verbatim>\<open>int\<close> in \<open>0..255\<close>, and
  \<^verbatim>\<open>data->frequencies[r]++\<close> uses it as the index. The C code has no test on \<open>r\<close>; the
  test below is the bound of the array, and its \<open>else\<close> branch is the access outside it.
  \<open>n\<close> counts the characters; it is a C \<^verbatim>\<open>int\<close>, exact for inputs of fewer than \<open>2^31\<close>
  bytes.
\<close>

fun getFreq_loop :: "string \<Rightarrow> ProbabilityData \<Rightarrow> int \<Rightarrow> fault + (int \<times> ProbabilityData)" where
  "getFreq_loop [] data n = Inr (n, data)"
| "getFreq_loop (c # f) data n =
     (let r = (of_char c :: int) in
      if 0 \<le> r \<and> r < int (length (frequencies data))
      then getFreq_loop f
             (data\<lparr>frequencies := (frequencies data)[nat r := frequencies data ! nat r + 1]\<rparr>)
             (n + 1)
      else Inl (OutOfBounds r))"

text \<open>The result is the \<^verbatim>\<open>unsigned int\<close> that \<^verbatim>\<open>n\<close> converts to, and the filled table.\<close>

definition getFreq :: "string \<Rightarrow> fault + (32 word \<times> ProbabilityData)" where
  "getFreq f =
     (case getFreq_loop f initializeProb 0 of Inl e \<Rightarrow> Inl e
      | Inr (n, data) \<Rightarrow> Inr (word_of_int n, data))"

section \<open>The weights as C doubles\<close>

text \<open>
  The field \<^verbatim>\<open>freq\<close> and the tables of probabilities are C \<^verbatim>\<open>double\<close>s. The definitions
  above are written for any type of weights with \<open><\<close> and \<open>+\<close>; this section gives the
  type the compiled program has: IEEE 754 binary64 with the default rounding (to nearest,
  ties to even). A double is its 64 bits: bit 63 is the sign, bits 52-62 the biased
  exponent \<open>E\<close>, bits 0-51 the fraction \<open>F\<close>. With \<open>E = 2047\<close> it is an infinity (\<open>F = 0\<close>) or
  a NaN (\<open>F \<noteq> 0\<close>). Otherwise its value is \<open>dsig * 2 ^ (dex - 1075)\<close>, where \<open>dex = max 1 E\<close>
  and the signed significand \<open>dsig\<close> has the magnitude \<open>F\<close> when \<open>E = 0\<close> (zero and the
  subnormal numbers) and \<open>2 ^ 52 + F\<close> otherwise.
\<close>

datatype double = Double (bits: "64 word")

definition dsign :: "double \<Rightarrow> bool" where
  "dsign d = bit (bits d) 63"

definition dexp :: "double \<Rightarrow> int" where
  "dexp d = uint (take_bit 11 (drop_bit 52 (bits d)))"

definition dfrac :: "double \<Rightarrow> int" where
  "dfrac d = uint (take_bit 52 (bits d))"

definition is_nan :: "double \<Rightarrow> bool" where
  "is_nan d \<longleftrightarrow> dexp d = 2047 \<and> dfrac d \<noteq> 0"

definition is_inf :: "double \<Rightarrow> bool" where
  "is_inf d \<longleftrightarrow> dexp d = 2047 \<and> dfrac d = 0"

definition dex :: "double \<Rightarrow> int" where
  "dex d = max 1 (dexp d)"

definition dsig :: "double \<Rightarrow> int" where
  "dsig d = (if dsign d then - 1 else 1) * (if dexp d = 0 then dfrac d else 2 ^ 52 + dfrac d)"

text \<open>
  \<open>bitlen n\<close> is the number of binary digits of \<open>n\<close>. \<open>round_double s e\<close> is the double
  nearest to \<open>s * 2 ^ (e - 1075)\<close>, for \<open>s \<noteq> 0\<close> and \<open>e \<ge> 1\<close>. The magnitude \<open>n\<close> is brought to 53
  binary digits, or to fewer when that would take the exponent below 1 (the subnormal
  range): for \<open>k > 0\<close> the \<open>k\<close> low digits are dropped and the rest is rounded to nearest, a tie
  to the even neighbour; for \<open>k \<le> 0\<close> the digits are shifted up and nothing is lost. The bits
  of the result are \<open>(e + k - 1) * 2 ^ 52 + q'\<close> for the digits \<open>q'\<close> kept: the leading digit
  adds 1 to the exponent field of a normal number, and so does a carry out of the 53
  digits. A result beyond the largest finite double is an infinity.
\<close>

function bitlen :: "int \<Rightarrow> int" where
  "bitlen n = (if n \<le> 0 then 0 else 1 + bitlen (n div 2))"
  by pat_completeness auto

termination bitlen
  by (relation "measure nat") auto

declare bitlen.simps [simp del]

definition round_double :: "int \<Rightarrow> int \<Rightarrow> double" where
  "round_double s e =
     (let n = \<bar>s\<bar>;
          k = max (bitlen n - 53) (1 - e);
          q = (if 0 \<le> k then n div 2 ^ nat k else n * 2 ^ nat (- k));
          r = (if 0 \<le> k then n mod 2 ^ nat k else 0);
          q' = (if 0 < k \<and> (2 ^ nat k < 2 * r \<or> (2 * r = 2 ^ nat k \<and> odd q)) then q + 1 else q);
          m = min ((e + k - 1) * 2 ^ 52 + q') (2047 * 2 ^ 52)
      in Double (word_of_int m + (if s < 0 then 2 ^ 63 else 0)))"

text \<open>
  Comparison and addition. The values of two doubles that are not NaN are ordered as
  their bit patterns read as sign and magnitude (\<open>dkey\<close>; the two zeros are equal), and
  every comparison with a NaN is false. The sum of two finite doubles is the exact sum of
  their values, rounded; an exact sum of zero is \<open>+0\<close>, except that \<open>-0 + -0 = -0\<close>. C does
  not fix which NaN an operation returns: the model returns one quiet NaN (the program
  only adds and compares weights, and all NaNs behave alike there).
\<close>

definition dkey :: "double \<Rightarrow> int" where
  "dkey d = (if dsign d then - 1 else 1) * uint (take_bit 63 (bits d))"

instantiation double :: "{ord,plus}"
begin

definition less_double :: "double \<Rightarrow> double \<Rightarrow> bool" where
  "less_double a b \<longleftrightarrow> \<not> is_nan a \<and> \<not> is_nan b \<and> dkey a < dkey b"

definition less_eq_double :: "double \<Rightarrow> double \<Rightarrow> bool" where
  "less_eq_double a b \<longleftrightarrow> \<not> is_nan a \<and> \<not> is_nan b \<and> dkey a \<le> dkey b"

definition plus_double :: "double \<Rightarrow> double \<Rightarrow> double" where
  "plus_double a b =
     (if is_nan a \<or> is_nan b then Double 0x7FF8000000000000
      else if is_inf a then (if is_inf b \<and> dsign a \<noteq> dsign b then Double 0x7FF8000000000000 else a)
      else if is_inf b then b
      else let e = min (dex a) (dex b);
               s = dsig a * 2 ^ nat (dex a - e) + dsig b * 2 ^ nat (dex b - e)
           in if s = 0 then (if dsign a \<and> dsign b then Double 0x8000000000000000 else Double 0)
              else round_double s e)"

instance ..

end

section \<open>Notions used in the statements\<close>

subsection \<open>Heaps\<close>

text \<open>
  A heap is well formed when the array has \<open>capacity\<close> slots, \<open>size \<le> capacity\<close>, and the
  first \<open>size\<close> slots hold nodes. The bound \<open>capacity < 2^30\<close> keeps every index
  computation (\<open>2 * idx + 2\<close>) inside the range of a C \<^verbatim>\<open>int\<close>. \<open>nodes\<close> is the multiset of
  the nodes in the heap, \<open>key h i\<close> the frequency at position \<open>i\<close>.
\<close>

definition wf_heap :: "'f MinHeap \<Rightarrow> bool" where
  "wf_heap h \<longleftrightarrow>
     length (array h) = unat (capacity h) \<and> size_h h \<le> capacity h \<and>
     unat (capacity h) < 2 ^ 30 \<and> (\<forall>i < unat (size_h h). array h ! i \<noteq> None)"

definition nodes :: "'f MinHeap \<Rightarrow> 'f MinHNode multiset" where
  "nodes h = mset (map the (take (unat (size_h h)) (array h)))"

definition key :: "'f MinHeap \<Rightarrow> nat \<Rightarrow> 'f" where
  "key h i = freq (the (array h ! i))"

text \<open>
  The position that \<^verbatim>\<open>minHeapify\<close> chooses as \<^verbatim>\<open>smallest\<close> at position \<open>i\<close>, from the keys \<open>k\<close>
  and the size \<open>n\<close>; and the heap with the slots \<open>a\<close> and \<open>b\<close> exchanged.
\<close>

definition smallest_nat :: "(nat \<Rightarrow> 'f::ord) \<Rightarrow> nat \<Rightarrow> nat \<Rightarrow> nat" where
  "smallest_nat k n i =
     (let s1 = (if 2 * i + 1 < n \<and> k (2 * i + 1) < k i then 2 * i + 1 else i)
      in if 2 * i + 2 < n \<and> k (2 * i + 2) < k s1 then 2 * i + 2 else s1)"

abbreviation swapped :: "'f MinHeap \<Rightarrow> nat \<Rightarrow> nat \<Rightarrow> 'f MinHeap" where
  "swapped h a b \<equiv> h\<lparr>array := (array h)[a := array h ! b, b := array h ! a]\<rparr>"

text \<open>The heap that \<^verbatim>\<open>extractMin\<close> hands to \<^verbatim>\<open>minHeapify\<close>.\<close>

definition moved_last :: "'f MinHeap \<Rightarrow> 'f MinHeap" where
  "moved_last h =
     h\<lparr>array := (array h)[0 := array h ! (unat (size_h h) - 1)], size_h := size_h h - 1\<rparr>"

text \<open>
  Inside the loop of \<^verbatim>\<open>insertMinHeap\<close> the position \<open>i\<close> is a hole: every other slot below
  \<open>size\<close> holds a node.
\<close>

definition hole_heap :: "'f MinHeap \<Rightarrow> nat \<Rightarrow> bool" where
  "hole_heap h i \<longleftrightarrow>
     length (array h) = unat (capacity h) \<and> size_h h \<le> capacity h \<and>
     unat (capacity h) < 2 ^ 30 \<and> i < unat (size_h h) \<and>
     (\<forall>j < unat (size_h h). j \<noteq> i \<longrightarrow> array h ! j \<noteq> None)"

text \<open>One pass of the loop of \<^verbatim>\<open>insertMinHeap\<close>: the slot \<open>i\<close> receives the node of its parent.\<close>

abbreviation shifted :: "'f MinHeap \<Rightarrow> nat \<Rightarrow> 'f MinHeap" where
  "shifted h i \<equiv> h\<lparr>array := (array h)[i := array h ! ((i - 1) div 2)]\<rparr>"

text \<open>
  The first index of the loop of \<^verbatim>\<open>buildMinHeap\<close>, \<^verbatim>\<open>(n - 1) / 2\<close> with \<^verbatim>\<open>n = size - 1\<close>, is
  \<open>heapify_count h - 1\<close>: C's division truncates, so for \<open>size = 1\<close> it is \<open>0\<close>, not \<open>-1\<close>.
\<close>

definition heapify_count :: "'f MinHeap \<Rightarrow> nat" where
  "heapify_count h = (if size_h h = 1 then 1 else unat (size_h h) div 2)"

text \<open>The leaves that \<^verbatim>\<open>createAndBuildMinHeap\<close> creates from the first \<open>n\<close> entries.\<close>

definition input_nodes :: "char list \<Rightarrow> 'f list \<Rightarrow> nat \<Rightarrow> 'f MinHNode list" where
  "input_nodes its frs n = map (\<lambda>j. newNode (its ! j) (frs ! j)) [0..<n]"

text \<open>The heap that \<^verbatim>\<open>createAndBuildMinHeap\<close> hands to \<^verbatim>\<open>buildMinHeap\<close>.\<close>

definition filled_heap :: "char list \<Rightarrow> 'f list \<Rightarrow> nat \<Rightarrow> 'f MinHeap" where
  "filled_heap its frs n =
     \<lparr>size_h = of_nat n, capacity = of_nat n,
      array = map (\<lambda>j. Some (newNode (its ! j) (frs ! j))) [0..<n]\<rparr>"

subsection \<open>Heap order\<close>

text \<open>
  The heap order on the keys \<open>k 0, ..., k (n - 1)\<close>, from position \<open>lo\<close> on: every position
  \<open>i \<ge> lo\<close> has a key \<open>\<le>\<close> the keys of its children \<open>2 * i + 1\<close> and \<open>2 * i + 2\<close>, where
  they exist.
\<close>

definition children_ok :: "(nat \<Rightarrow> 'a::ord) \<Rightarrow> nat \<Rightarrow> nat \<Rightarrow> bool" where
  "children_ok k n i \<longleftrightarrow>
     (2 * i + 1 < n \<longrightarrow> k i \<le> k (2 * i + 1)) \<and> (2 * i + 2 < n \<longrightarrow> k i \<le> k (2 * i + 2))"

definition ord_from :: "(nat \<Rightarrow> 'a::ord) \<Rightarrow> nat \<Rightarrow> nat \<Rightarrow> bool" where
  "ord_from k n lo \<longleftrightarrow> (\<forall>i. lo \<le> i \<and> i < n \<longrightarrow> children_ok k n i)"

text \<open>
  The state before \<^verbatim>\<open>minHeapify\<close> at \<open>j\<close>: the order holds from \<open>lo\<close> on except at \<open>j\<close>, and
  the parent of \<open>j\<close> (when it is \<open>\<ge> lo\<close>) is \<open>\<le>\<close> the children of \<open>j\<close>.
\<close>

definition down_pre :: "(nat \<Rightarrow> 'a::ord) \<Rightarrow> nat \<Rightarrow> nat \<Rightarrow> nat \<Rightarrow> bool" where
  "down_pre k n lo j \<longleftrightarrow>
     (\<forall>i. lo \<le> i \<and> i < n \<and> i \<noteq> j \<longrightarrow> children_ok k n i) \<and>
     (0 < j \<and> lo \<le> (j - 1) div 2 \<longrightarrow>
        (2 * j + 1 < n \<longrightarrow> k ((j - 1) div 2) \<le> k (2 * j + 1)) \<and>
        (2 * j + 2 < n \<longrightarrow> k ((j - 1) div 2) \<le> k (2 * j + 2)))"

text \<open>
  The min-heap ordering invariant of a heap: for every position \<open>i < size\<close> that has
  children, the frequency at \<open>i\<close> is \<open>\<le>\<close> the frequency of each child.
\<close>

definition heap_ordered :: "('f::ord) MinHeap \<Rightarrow> bool" where
  "heap_ordered h \<longleftrightarrow>
     (\<forall>i < unat (size_h h).
        (2 * i + 1 < unat (size_h h) \<longrightarrow> key h i \<le> key h (2 * i + 1)) \<and>
        (2 * i + 2 < unat (size_h h) \<longrightarrow> key h i \<le> key h (2 * i + 2)))"

text \<open>
  The state inside the loop of \<^verbatim>\<open>insertMinHeap\<close>, with the hole at \<open>i\<close> and the new key \<open>x\<close>:
  parents are \<open>\<le>\<close> children wherever the hole is not involved, the children of the hole
  are \<open>\<ge> x\<close>, and they are \<open>\<ge>\<close> the parent of the hole.
\<close>

definition up_inv :: "(nat \<Rightarrow> 'a::ord) \<Rightarrow> nat \<Rightarrow> 'a \<Rightarrow> nat \<Rightarrow> bool" where
  "up_inv k n x i \<longleftrightarrow>
     (\<forall>c. 0 < c \<and> c < n \<and> c \<noteq> i \<and> (c - 1) div 2 \<noteq> i \<longrightarrow> k ((c - 1) div 2) \<le> k c) \<and>
     (\<forall>c. 0 < c \<and> c < n \<and> (c - 1) div 2 = i \<longrightarrow> x \<le> k c) \<and>
     (\<forall>c. 0 < c \<and> c < n \<and> (c - 1) div 2 = i \<and> 0 < i \<longrightarrow> k ((i - 1) div 2) \<le> k c)"

text \<open>
  A sequence of calls of \<^verbatim>\<open>insertMinHeap\<close> and \<^verbatim>\<open>extractMin\<close> on one heap, as a caller such
  as \<^verbatim>\<open>buildHuffmanTree\<close> makes them. The run stops at the first fault.
\<close>

datatype 'f heap_op = Insert "'f MinHNode" | ExtractMin

fun apply_ops :: "('f::ord) MinHeap \<Rightarrow> 'f heap_op list \<Rightarrow> fault + 'f MinHeap" where
  "apply_ops h [] = Inr h"
| "apply_ops h (Insert nd # ops) =
     (case insertMinHeap h nd of Inl e \<Rightarrow> Inl e | Inr h' \<Rightarrow> apply_ops h' ops)"
| "apply_ops h (ExtractMin # ops) =
     (case extractMin h of Inl e \<Rightarrow> Inl e | Inr (x, h') \<Rightarrow> apply_ops h' ops)"

subsection \<open>Trees\<close>

text \<open>
  \<open>leaf_list\<close> lists the leaves of a tree from left to right, each with its symbol and
  weight. \<open>full\<close>: every node has no child or two children. \<open>weights_ok\<close>: the weight of
  every node with two children is the sum of the weights of the two.
\<close>

fun leaf_list :: "'f MinHNode \<Rightarrow> (char \<times> 'f) list" where
  "leaf_list (MinHNode it fr l r) =
     (if l = None \<and> r = None then [(it, fr)]
      else (case l of None \<Rightarrow> [] | Some a \<Rightarrow> leaf_list a) @
           (case r of None \<Rightarrow> [] | Some b \<Rightarrow> leaf_list b))"

fun full :: "'f MinHNode \<Rightarrow> bool" where
  "full (MinHNode it fr l r) =
     (case l of
        None \<Rightarrow> (case r of None \<Rightarrow> True | Some b \<Rightarrow> False)
      | Some a \<Rightarrow> (case r of None \<Rightarrow> False | Some b \<Rightarrow> full a \<and> full b))"

fun weights_ok :: "('f::plus) MinHNode \<Rightarrow> bool" where
  "weights_ok (MinHNode it fr l r) =
     (case l of
        None \<Rightarrow> (case r of None \<Rightarrow> True | Some b \<Rightarrow> weights_ok b)
      | Some a \<Rightarrow> (case r of None \<Rightarrow> weights_ok a
                   | Some b \<Rightarrow> fr = freq a + freq b \<and> weights_ok a \<and> weights_ok b))"

text \<open>
  \<open>bottom_up_sum t\<close> adds the weights of the leaves of \<open>t\<close> bottom-up: at a node with two
  children, the sum for the left child plus the sum for the right child.
\<close>

fun bottom_up_sum :: "('f::plus) MinHNode \<Rightarrow> 'f" where
  "bottom_up_sum (MinHNode it fr l r) =
     (case l of
        None \<Rightarrow> fr
      | Some a \<Rightarrow> (case r of None \<Rightarrow> fr | Some b \<Rightarrow> bottom_up_sum a + bottom_up_sum b))"

text \<open>
  The leaves of all the trees in a multiset of trees; the trees the builder works with;
  and the (symbol, weight) pairs of the first \<open>n\<close> entries of the input arrays.
\<close>

definition all_leaves :: "'f MinHNode multiset \<Rightarrow> (char \<times> 'f) multiset" where
  "all_leaves M = (\<Sum>t\<in>#M. mset (leaf_list t))"

definition good_tree :: "('f::plus) MinHNode \<Rightarrow> bool" where
  "good_tree t \<longleftrightarrow> full t \<and> weights_ok t"

definition input_leaves :: "char list \<Rightarrow> 'f list \<Rightarrow> nat \<Rightarrow> (char \<times> 'f) list" where
  "input_leaves its frs n = map (\<lambda>j. (its ! j, frs ! j)) [0..<n]"

subsection \<open>Bit paths and printed codes\<close>

text \<open>
  \<open>paths t\<close> lists the leaves of \<open>t\<close> from left to right, each with its symbol and its path
  from the root (\<open>False\<close> for left, \<open>True\<close> for right). \<open>code_paths t c\<close> are the paths of the
  leaves that hold the symbol \<open>c\<close>, \<open>depth t\<close> is the length of the longest path, and
  \<open>render_bits\<close> writes a path with the characters \<open>0\<close> and \<open>1\<close>.
\<close>

fun paths :: "'f MinHNode \<Rightarrow> (char \<times> bool list) list" where
  "paths (MinHNode it fr l r) =
     (if l = None \<and> r = None then [(it, [])]
      else map (\<lambda>(c, p). (c, False # p)) (case l of None \<Rightarrow> [] | Some a \<Rightarrow> paths a) @
           map (\<lambda>(c, p). (c, True # p)) (case r of None \<Rightarrow> [] | Some b \<Rightarrow> paths b))"

definition code_paths :: "'f MinHNode \<Rightarrow> char \<Rightarrow> bool list list" where
  "code_paths t c = map snd (filter (\<lambda>(d, p). d = c) (paths t))"

fun depth :: "'f MinHNode \<Rightarrow> nat" where
  "depth (MinHNode it fr l r) =
     max (case l of None \<Rightarrow> 0 | Some a \<Rightarrow> depth a + 1)
         (case r of None \<Rightarrow> 0 | Some b \<Rightarrow> depth b + 1)"

definition render_bits :: "bool list \<Rightarrow> string" where
  "render_bits p = map (\<lambda>b. if b then CHR ''1'' else CHR ''0'') p"

text \<open>The path buffer holds the bits \<open>pre\<close> in its first positions.\<close>

definition arr_holds :: "int option list \<Rightarrow> bool list \<Rightarrow> bool" where
  "arr_holds arr pre \<longleftrightarrow>
     length pre \<le> length arr \<and> (\<forall>i < length pre. arr ! i = Some (if pre ! i then 1 else 0))"

text \<open>What \<^verbatim>\<open>printArray\<close> appends after the digits.\<close>

abbreviation newline_if :: "bool \<Rightarrow> string" where
  "newline_if nl \<equiv> (if nl then [CHR 0x0A] else [])"

text \<open>The text that the listing loop writes for the symbol with value \<open>j\<close>.\<close>

definition listing_entry :: "'f MinHNode \<Rightarrow> nat \<Rightarrow> string" where
  "listing_entry t j =
     (if 32 \<le> j \<and> j \<le> 126
      then concat (map (\<lambda>p. render_bits p @ [CHR 0x0A]) (code_paths t (char_of j)))
      else ''No code'' @ [CHR 0x0A])"

section \<open>Frequency counting: the table index\<close>

lemma of_char_int_nat: "(of_char c :: int) = int (of_char c)"
  by (simp add: of_nat_of_char)

lemma of_char_int_range: "0 \<le> (of_char c :: int) \<and> (of_char c :: int) < 256"
  by (simp add: of_char_int_nat)

lemma char_of_eq_small: "i < 256 \<Longrightarrow> (c = char_of (i::nat)) = (of_char c = i)"
  by (metis char_of_char of_char_of mod_less)

lemma getFreq_loop_ok:
  assumes "\<forall>c\<in>set f. (of_char c :: int) < int (length (frequencies data))"
    and "length (frequencies data) \<le> 256"
  shows "\<exists>data'. getFreq_loop f data n = Inr (n + int (length f), data') \<and>
           length (frequencies data') = length (frequencies data) \<and>
           (\<forall>i < length (frequencies data). frequencies data' ! i =
               frequencies data ! i + of_nat (count_list f (char_of i)))"
  using assms
proof (induction f arbitrary: data n)
  case Nil
  then show ?case by simp
next
  case (Cons c f)
  let ?r = "of_char c :: int"
  let ?d = "data\<lparr>frequencies := (frequencies data)[nat ?r := frequencies data ! nat ?r + 1]\<rparr>"
  from Cons.prems have r: "0 \<le> ?r" "?r < int (length (frequencies data))"
    using of_char_int_range [of c] by auto
  have "\<forall>c\<in>set f. (of_char c :: int) < int (length (frequencies ?d))"
    and "length (frequencies ?d) \<le> 256"
    using Cons.prems by simp_all
  from Cons.IH [OF this, of "n + 1"] obtain data' where
    d: "getFreq_loop f ?d (n + 1) = Inr (n + 1 + int (length f), data')"
       "length (frequencies data') = length (frequencies ?d)"
       "\<forall>i < length (frequencies ?d). frequencies data' ! i =
               frequencies ?d ! i + of_nat (count_list f (char_of i))"
    by blast
  have "getFreq_loop (c # f) data n = Inr (n + int (length (c # f)), data')"
    using r d(1) by (simp add: Let_def add.commute add.left_commute)
  moreover have "frequencies data' ! i =
               frequencies data ! i + of_nat (count_list (c # f) (char_of i))"
    if "i < length (frequencies data)" for i
  proof -
    have ci: "(c = char_of i) = (nat ?r = i)"
      using that Cons.prems(2) by (simp add: char_of_eq_small)
    show ?thesis using d(3) that ci by (auto simp: nth_list_update)
  qed
  ultimately show ?case using d(2) by auto
qed

text \<open>
  C10. \<^verbatim>\<open>getFreq\<close> uses each input byte as the index into the 128-entry table. When every
  byte of the input is at most 127, no access leaves the table: the pass returns the number
  of bytes read and a table whose entry \<open>i\<close> counts the occurrences of byte \<open>i\<close> (as an
  \<^verbatim>\<open>unsigned int\<close>). For the one-byte input \<open>0x80\<close> the index is 128, outside the table.
\<close>

theorem getFreq_index:
  "((\<forall>c\<in>set f. (of_char c :: int) \<le> 127) \<longrightarrow>
      (\<exists>data. getFreq f = Inr (word_of_int (int (length f)), data) \<and>
         length (frequencies data) = 128 \<and>
         (\<forall>i < 128. frequencies data ! i = of_nat (count_list f (char_of i))))) \<and>
   getFreq [CHR 0x80] = Inl (OutOfBounds 128)"
proof (intro conjI impI)
  assume a: "\<forall>c\<in>set f. (of_char c :: int) \<le> 127"
  have "\<forall>c\<in>set f. (of_char c :: int) < int (length (frequencies initializeProb))"
    using a by (auto simp: initializeProb_def ASCII_SIZE_def)
  moreover have "length (frequencies initializeProb) \<le> 256"
    by (simp add: initializeProb_def ASCII_SIZE_def)
  ultimately obtain data' where
    d: "getFreq_loop f initializeProb 0 = Inr (0 + int (length f), data')"
       "length (frequencies data') = length (frequencies initializeProb)"
       "\<forall>i < length (frequencies initializeProb). frequencies data' ! i =
               frequencies initializeProb ! i + of_nat (count_list f (char_of i))"
    using getFreq_loop_ok [of f initializeProb 0] by blast
  show "\<exists>data. getFreq f = Inr (word_of_int (int (length f)), data) \<and>
         length (frequencies data) = 128 \<and>
         (\<forall>i < 128. frequencies data ! i = of_nat (count_list f (char_of i)))"
    using d by (auto simp: getFreq_def initializeProb_def ASCII_SIZE_def)
next
  show "getFreq [CHR 0x80] = Inl (OutOfBounds 128)"
    by (simp add: getFreq_def initializeProb_def ASCII_SIZE_def)
qed

theorem getFreq_index_witness:
  "(of_char CHR ''a'' :: int) \<le> 127 \<and> (of_char CHR ''b'' :: int) \<le> 127 \<and>
   (\<exists>data. getFreq ''aab'' = Inr (3, data) \<and> length (frequencies data) = 128)"
  using getFreq_index [of "''aab''"] by auto

section \<open>The decode loop\<close>

lemma decodeFile_step_leaf:
  "isLeaf cur \<Longrightarrow> decodeFile_step root (cur, out) b = (root, out @ [item cur])"
  by (simp add: decodeFile_step_def isLeaf_def)

text \<open>While the root is not a leaf, the loop is never at a leaf when it reads a character.\<close>

lemma decodeFile_step_nonleaf:
  "\<not> isLeaf root \<Longrightarrow> \<not> isLeaf (fst (decodeFile_step root (cur, out) b))"
  by (simp add: decodeFile_step_def Let_def)

text \<open>
  C8. The loop body tests \<^verbatim>\<open>isLeaf(currentNode)\<close> after the two move attempts, whether or
  not a move was made. When the root is itself a leaf no move is possible, so every
  iteration, whatever the input character, writes the root's symbol: the output grows by
  one copy of it per input character.
\<close>

theorem decode_root_leaf:
  "isLeaf root \<Longrightarrow>
     decodeFile_step root (root, out) b = (root, out @ [item root]) \<and>
     decodeFile_loop root (root, out) input = (root, out @ replicate (length input) (item root))"
proof (induction input arbitrary: out)
  case Nil
  then show ?case by (simp add: decodeFile_step_leaf)
next
  case (Cons c input)
  from Cons.IH [OF Cons.prems, of "out @ [item root]"] Cons.prems show ?case
    by (simp add: decodeFile_step_leaf replicate_append_same)
qed

theorem decode_root_leaf_witness:
  "isLeaf (MinHNode CHR ''a'' (1::int) None None) \<and>
   snd (decodeFile_loop (MinHNode CHR ''a'' (1::int) None None)
     (MinHNode CHR ''a'' 1 None None, []) ''0x1'') = ''aaa''"
  using decode_root_leaf [of "MinHNode CHR ''a'' (1::int) None None" "[]" "CHR ''0''" "''0x1''"]
  by (simp add: isLeaf_def decodeFile_step_def)

text \<open>
  A character that is not \<open>0\<close> or \<open>1\<close>, or that asks for a child that is not there, makes
  no move; at a node that is not a leaf the step then changes nothing.
\<close>

lemma decodeFile_step_ignored:
  "\<not> isLeaf cur \<Longrightarrow>
   (bit' \<noteq> CHR ''0'' \<and> bit' \<noteq> CHR ''1'') \<or> (bit' = CHR ''0'' \<and> left cur = None)
     \<or> (bit' = CHR ''1'' \<and> right cur = None) \<Longrightarrow>
   decodeFile_step root (cur, out) bit' = (cur, out)"
  by (auto simp: decodeFile_step_def isLeaf_def)

lemma decodeFile_loop_nonleaf:
  "\<not> isLeaf root \<Longrightarrow> \<not> isLeaf (fst st) \<Longrightarrow> \<not> isLeaf (fst (decodeFile_loop root st input))"
proof (induction input arbitrary: st)
  case Nil
  then show ?case by simp
next
  case (Cons b input)
  have "\<not> isLeaf (fst (decodeFile_step root st b))"
    using decodeFile_step_nonleaf [OF Cons.prems(1), of "fst st" "snd st" b] by simp
  from Cons.IH [OF Cons.prems(1) this] show ?case by simp
qed

lemma decodeFile_step_full:
  "full root \<Longrightarrow> full cur \<Longrightarrow> full (fst (decodeFile_step root (cur, out) b))"
  by (cases cur) (auto simp: decodeFile_step_def Let_def split: option.splits)

lemma decodeFile_loop_full:
  "full root \<Longrightarrow> full (fst st) \<Longrightarrow> full (fst (decodeFile_loop root st input))"
proof (induction input arbitrary: st)
  case Nil
  then show ?case by simp
next
  case (Cons b input)
  have "full (fst (decodeFile_step root st b))"
    using decodeFile_step_full [OF Cons.prems, of "snd st" b] by simp
  from Cons.IH [OF Cons.prems(1) this] show ?case by simp
qed

lemma full_children: "full t \<Longrightarrow> \<not> isLeaf t \<Longrightarrow> left t \<noteq> None \<and> right t \<noteq> None"
  by (cases t) (auto simp: isLeaf_def split: option.splits)

section \<open>Well-formed heaps and what the operations keep\<close>

lemma word32_of_int_less:
  "0 \<le> i \<Longrightarrow> i < 2 ^ 32 \<Longrightarrow> ((word_of_int i :: 32 word) < w) = (i < uint w)"
  by (simp add: word_less_def uint_word_of_int take_bit_eq_mod)

lemma word32_of_nat_less:
  "i < 2 ^ 32 \<Longrightarrow> ((of_nat i :: 32 word) < w) = (i < unat w)"
  by (simp add: word_less_nat_alt unat_of_nat)

lemma wf_heap_size: "wf_heap h \<Longrightarrow> unat (size_h h) \<le> length (array h) \<and> unat (size_h h) < 2 ^ 30"
  unfolding wf_heap_def word_le_nat_alt by linarith

lemma rd_wf:
  assumes "wf_heap h" "i < unat (size_h h)"
  shows "rd h (int i) = Inr (the (array h ! i))"
proof -
  have "i < length (array h)" using wf_heap_size [OF assms(1)] assms(2) by linarith
  moreover have "array h ! i \<noteq> None" using assms by (simp add: wf_heap_def)
  ultimately show ?thesis
    by (auto simp: rd_def)
qed

lemma smallest_of_wf:
  assumes "wf_heap h" "i < 2 ^ 30"
  shows "smallest_of h (int i) = Inr (int (smallest_nat (key h) (unat (size_h h)) i))"
proof -
  let ?n = "unat (size_h h)"
  have l: "((word_of_int (2 * int i + 1) :: 32 word) < size_h h) = (2 * i + 1 < ?n)"
  proof -
    have "(word_of_int (2 * int i + 1) :: 32 word) = of_nat (2 * i + 1)" by simp
    then show ?thesis using assms(2) word32_of_nat_less [of "2 * i + 1" "size_h h"]
      by (simp only:) simp
  qed
  have r: "((word_of_int (2 * int i + 2) :: 32 word) < size_h h) = (2 * i + 2 < ?n)"
  proof -
    have "(word_of_int (2 * int i + 2) :: 32 word) = of_nat (2 * i + 2)" by simp
    then show ?thesis using assms(2) word32_of_nat_less [of "2 * i + 2" "size_h h"]
      by (simp only:) simp
  qed
  have ri: "2 * i + 1 < ?n \<Longrightarrow> rd h (int i) = Inr (the (array h ! i))"
    using assms by (intro rd_wf) auto
  have rl: "2 * i + 1 < ?n \<Longrightarrow> rd h (2 * int i + 1) = Inr (the (array h ! (2 * i + 1)))"
    using rd_wf [OF assms(1), of "2 * i + 1"] by (simp add: add.commute)
  have rr: "2 * i + 2 < ?n \<Longrightarrow> rd h (2 * int i + 2) = Inr (the (array h ! (2 * i + 2)))"
    using rd_wf [OF assms(1), of "2 * i + 2"] by (simp add: add.commute)
  show ?thesis
  proof (cases "2 * i + 2 < ?n")
    case True
    then have "2 * i + 1 < ?n" by simp
    with True show ?thesis
      unfolding smallest_of_def smallest_nat_def Let_def l r
      by (simp add: ri rl rr key_def)
  next
    case False
    then show ?thesis
      unfolding smallest_of_def smallest_nat_def Let_def l r
      by (simp add: ri rl key_def)
  qed
qed

lemma smallest_nat_cases:
  "smallest_nat k n i = i \<or>
   (smallest_nat k n i = 2 * i + 1 \<or> smallest_nat k n i = 2 * i + 2) \<and> smallest_nat k n i < n"
  by (auto simp: smallest_nat_def Let_def)

lemma swapMinHNode_wf:
  assumes "wf_heap h" "a < unat (size_h h)" "b < unat (size_h h)"
  shows "swapMinHNode h (int a) (int b) =
           Inr (h\<lparr>array := (array h)[a := array h ! b, b := array h ! a]\<rparr>)"
proof -
  have "array h ! a \<noteq> None" "array h ! b \<noteq> None"
    using assms by (simp_all add: wf_heap_def)
  then show ?thesis
    using rd_wf [OF assms(1,2)] rd_wf [OF assms(1,3)]
    by (auto simp: swapMinHNode_Inr_iff)
qed

lemma wf_heap_swap:
  assumes "wf_heap h" "a < unat (size_h h)" "b < unat (size_h h)"
  shows "wf_heap (h\<lparr>array := (array h)[a := array h ! b, b := array h ! a]\<rparr>)"
  using assms wf_heap_size [OF assms(1)] by (auto simp: wf_heap_def nth_list_update)

lemma nodes_swap:
  assumes "wf_heap h" "a < unat (size_h h)" "b < unat (size_h h)"
  shows "nodes (h\<lparr>array := (array h)[a := array h ! b, b := array h ! a]\<rparr>) = nodes h"
proof -
  let ?n = "unat (size_h h)"
  let ?xs = "take ?n (array h)"
  have len: "a < length ?xs" "b < length ?xs"
    using assms wf_heap_size [OF assms(1)] by simp_all
  have t: "take ?n ((array h)[a := array h ! b, b := array h ! a]) = ?xs[a := ?xs ! b, b := ?xs ! a]"
    using assms by (simp add: take_update_swap)
  have m: "mset (?xs[a := ?xs ! b, b := ?xs ! a]) = mset ?xs"
    by (rule mset_swap [OF len(2) len(1)])
  have "nodes (h\<lparr>array := (array h)[a := array h ! b, b := array h ! a]\<rparr>)
      = image_mset the (mset (take ?n ((array h)[a := array h ! b, b := array h ! a])))"
    by (simp add: nodes_def)
  also have "\<dots> = image_mset the (mset ?xs)"
    by (simp only: t m)
  also have "\<dots> = nodes h"
    by (simp add: nodes_def)
  finally show ?thesis .
qed

lemma minHeapify_wf_rule:
  fixes h :: "('f::ord) MinHeap"
  assumes wf: "wf_heap h" and i: "i < 2 ^ 30"
    and base: "\<And>h i. wf_heap h \<Longrightarrow> i < 2 ^ 30 \<Longrightarrow>
                 smallest_nat (key h) (unat (size_h h)) i = i \<Longrightarrow> P h i h"
    and step: "\<And>h i s h'. wf_heap h \<Longrightarrow> i < 2 ^ 30 \<Longrightarrow>
                 s = smallest_nat (key h) (unat (size_h h)) i \<Longrightarrow> s \<noteq> i \<Longrightarrow>
                 s < unat (size_h h) \<Longrightarrow> s = 2 * i + 1 \<or> s = 2 * i + 2 \<Longrightarrow>
                 minHeapify (swapped h s i) (int s) = Inr h' \<Longrightarrow>
                 P (swapped h s i) s h' \<Longrightarrow> P h i h'"
  shows "\<exists>h'. minHeapify h (int i) = Inr h' \<and> P h i h'"
proof -
  have "\<forall>i. idx = int i \<longrightarrow> wf_heap h \<longrightarrow> i < 2 ^ 30 \<longrightarrow>
          (\<exists>h'. minHeapify h idx = Inr h' \<and> P h i h')" for idx
  proof (induction h idx rule: minHeapify.induct)
    case (1 h idx)
    show ?case
    proof (intro allI impI)
      fix i assume idx: "idx = int i" and wf: "wf_heap h" and i: "i < (2::nat) ^ 30"
      let ?n = "unat (size_h h)"
      let ?s = "smallest_nat (key h) ?n i"
      have so: "smallest_of h idx = Inr (int ?s)"
        using smallest_of_wf [OF wf i] idx by simp
      show "\<exists>h'. minHeapify h idx = Inr h' \<and> P h i h'"
      proof (cases "?s = i")
        case True
        then have "minHeapify h idx = Inr h"
          using so idx by (subst minHeapify.simps) simp
        with base [OF wf i True] show ?thesis by blast
      next
        case False
        with smallest_nat_cases [of "key h" ?n i]
        have s: "?s = 2 * i + 1 \<or> ?s = 2 * i + 2" "?s < ?n" by auto
        then have iN: "i < ?n" by auto
        let ?h1 = "swapped h ?s i"
        have sw: "swapMinHNode h (int ?s) idx = Inr ?h1"
          using swapMinHNode_wf [OF wf s(2) iN] idx by simp
        have wf1: "wf_heap ?h1" by (rule wf_heap_swap [OF wf s(2) iN])
        have s30: "?s < 2 ^ 30" using s(2) wf_heap_size [OF wf] by linarith
        have ne: "int ?s \<noteq> idx" using False idx by simp
        from "1.IH" [OF so ne sw] wf1 s30
        obtain h' where h': "minHeapify ?h1 (int ?s) = Inr h'" "P ?h1 ?s h'"
          by blast
        have "minHeapify h idx = Inr h'"
          using so ne sw h'(1) by (subst minHeapify.simps) simp
        moreover have "P h i h'"
          by (rule step [OF wf i refl False s(2) s(1) h'])
        ultimately show ?thesis by blast
      qed
    qed
  qed
  with wf i show ?thesis by blast
qed

lemma minHeapify_wf:
  fixes h :: "('f::ord) MinHeap"
  assumes "wf_heap h" "i < 2 ^ 30"
  shows "\<exists>h'. minHeapify h (int i) = Inr h' \<and> wf_heap h' \<and> size_h h' = size_h h \<and>
           capacity h' = capacity h \<and> nodes h' = nodes h \<and>
           (\<forall>j < i. array h' ! j = array h ! j)"
proof -
  let ?P = "\<lambda>(h :: 'f MinHeap) i h'. wf_heap h' \<and> size_h h' = size_h h \<and>
           capacity h' = capacity h \<and> nodes h' = nodes h \<and>
           (\<forall>j < i. array h' ! j = array h ! j)"
  have "\<exists>h'. minHeapify h (int i) = Inr h' \<and> ?P h i h'"
  proof (rule minHeapify_wf_rule [OF assms, where P = ?P], goal_cases)
    case (1 h i)
    then show ?case by simp
  next
    case (2 h i s h')
    have iN: "i < unat (size_h h)" using 2(5,6) by auto
    from 2 nodes_swap [OF 2(1) 2(5) iN] show ?case by auto
  qed
  then show ?thesis by simp
qed

lemma unat_pred32: "(w :: 32 word) \<noteq> 0 \<Longrightarrow> unat (w - 1) = unat w - 1"
  by (simp add: unat_minus_one)

lemma unat_pos32: "(w :: 32 word) \<noteq> 0 \<Longrightarrow> 0 < unat w"
  by (simp add: unat_gt_0)

lemma wf_heap_moved_last:
  assumes "wf_heap h" "size_h h \<noteq> 0"
  shows "wf_heap (moved_last h)"
proof -
  let ?n = "unat (size_h h)"
  have n: "0 < ?n" "?n \<le> length (array h)" "unat (size_h h - 1) = ?n - 1"
    using assms wf_heap_size [OF assms(1)] by (simp_all add: unat_pos32 unat_pred32)
  have "size_h h - 1 \<le> capacity h"
    using assms n unfolding wf_heap_def word_le_nat_alt by linarith
  moreover have "array h ! (?n - 1) \<noteq> None"
    using assms(1) n(1) by (simp add: wf_heap_def)
  ultimately show ?thesis
    using assms(1) n by (auto simp: wf_heap_def moved_last_def nth_list_update)
qed

lemma mset_take_move_last:
  assumes "0 < n" "n \<le> length xs"
  shows "add_mset (xs ! 0) (mset (take (n - 1) (xs[0 := xs ! (n - 1)]))) = mset (take n xs)"
proof (cases "n = 1")
  case True
  with assms show ?thesis
    by (cases xs) auto
next
  case False
  with assms have n2: "2 \<le> n" by simp
  let ?m = "n - 1"
  let ?ys = "take ?m xs"
  have len: "0 < length ?ys" "?m < length xs" using n2 assms by simp_all
  have "take n xs = ?ys @ [xs ! ?m]"
    using take_Suc_conv_app_nth [OF len(2)] assms(1) by simp
  then have a: "mset (take n xs) = add_mset (xs ! ?m) (mset ?ys)" by simp
  have "take ?m (xs[0 := xs ! ?m]) = ?ys[0 := xs ! ?m]"
    by (simp add: take_update_swap)
  then have b: "mset (take ?m (xs[0 := xs ! ?m])) = add_mset (xs ! ?m) (mset ?ys - {#?ys ! 0#})"
    using len(1) by (simp add: mset_update)
  have c: "?ys ! 0 = xs ! 0" "xs ! 0 \<in># mset ?ys"
    using len n2 by (auto simp: in_set_conv_nth intro!: exI [of _ 0])
  show ?thesis
    unfolding a b using c by simp
qed

lemma nodes_moved_last:
  assumes "wf_heap h" "size_h h \<noteq> 0"
  shows "add_mset (the (array h ! 0)) (nodes (moved_last h)) = nodes h"
proof -
  let ?n = "unat (size_h h)"
  have n: "0 < ?n" "?n \<le> length (array h)" "unat (size_h h - 1) = ?n - 1"
    using assms wf_heap_size [OF assms(1)] by (simp_all add: unat_pos32 unat_pred32)
  have "image_mset the (add_mset (array h ! 0)
          (mset (take (?n - 1) ((array h)[0 := array h ! (?n - 1)]))))
        = image_mset the (mset (take ?n (array h)))"
    by (simp only: mset_take_move_last [OF n(1,2)])
  then show ?thesis
    by (simp add: nodes_def moved_last_def n(3))
qed

lemma extractMin_wf:
  fixes h :: "('f::ord) MinHeap"
  assumes "wf_heap h" "size_h h \<noteq> 0"
  shows "\<exists>h'. extractMin h = Inr (the (array h ! 0), h') \<and>
           minHeapify (moved_last h) 0 = Inr h' \<and>
           wf_heap h' \<and> size_h h' = size_h h - 1 \<and> capacity h' = capacity h \<and>
           add_mset (the (array h ! 0)) (nodes h') = nodes h"
proof -
  let ?n = "unat (size_h h)"
  have n: "0 < ?n" "?n \<le> length (array h)" "unat (size_h h - 1) = ?n - 1"
    using assms wf_heap_size [OF assms(1)] by (simp_all add: unat_pos32 unat_pred32)
  have r0: "rd h 0 = Inr (the (array h ! 0))"
    using rd_wf [OF assms(1), of 0] n(1) by simp
  have "uint (size_h h - 1) = int (?n - 1)"
    unfolding uint_nat n(3) ..
  then have rl: "rd h (uint (size_h h - 1)) = Inr (the (array h ! (?n - 1)))"
    using rd_wf [OF assms(1), of "?n - 1"] n(1) by simp
  have some: "Some (the (array h ! (?n - 1))) = array h ! (?n - 1)"
    using assms(1) n(1) by (simp add: wf_heap_def)
  have "0 < length (array h)" using n by linarith
  then have w: "wr h 0 (the (array h ! (?n - 1))) =
             Inr (h\<lparr>array := (array h)[0 := array h ! (?n - 1)]\<rparr>)"
    unfolding wr_def some by simp
  from minHeapify_wf [OF wf_heap_moved_last [OF assms], of 0]
  obtain h' where h': "minHeapify (moved_last h) 0 = Inr h'" "wf_heap h'"
    "size_h h' = size_h (moved_last h)" "capacity h' = capacity (moved_last h)"
    "nodes h' = nodes (moved_last h)"
    by auto
  have "extractMin h = Inr (the (array h ! 0), h')"
    using h'(1) w rl by (simp add: extractMin_def r0 moved_last_def)
  then show ?thesis
    using h' nodes_moved_last [OF assms] by (auto simp: moved_last_def)
qed

lemma hole_heap_size:
  "hole_heap h i \<Longrightarrow> unat (size_h h) \<le> length (array h) \<and> i < length (array h)"
  unfolding hole_heap_def word_le_nat_alt by linarith

lemma hole_heap_shifted:
  assumes "hole_heap h i" "i \<noteq> 0"
  shows "hole_heap (shifted h i) ((i - 1) div 2)"
proof -
  have "(i - 1) div 2 < i" using assms(2) by simp
  then show ?thesis
    using assms hole_heap_size [OF assms(1)]
    by (auto simp: hole_heap_def nth_list_update)
qed

lemma rd_hole:
  assumes "hole_heap h i" "j < unat (size_h h)" "j \<noteq> i"
  shows "rd h (int j) = Inr (the (array h ! j))"
proof -
  have "j < length (array h)" using hole_heap_size [OF assms(1)] assms(2) by linarith
  moreover have "array h ! j \<noteq> None" using assms by (simp add: hole_heap_def)
  ultimately show ?thesis by (auto simp: rd_def)
qed

lemma parent_int: "0 < i \<Longrightarrow> (int i - 1) sdiv 2 = int ((i - 1) div 2)"
proof -
  assume i: "0 < i"
  then have "0 \<le> int i - 1" by simp
  then have "(int i - 1) sdiv 2 = (int i - 1) div 2" by (rule sdiv2_nonneg)
  also have "\<dots> = int ((i - 1) div 2)" using i by (simp add: zdiv_int of_nat_diff)
  finally show ?thesis .
qed

lemma insertMinHeap_loop_rule:
  fixes h :: "('f::ord) MinHeap"
  assumes hh: "hole_heap h i"
    and base: "\<And>h i. hole_heap h i \<Longrightarrow> i = 0 \<or> \<not> freq nd < key h ((i - 1) div 2) \<Longrightarrow> P h i h i"
    and step: "\<And>h i h' j. hole_heap h i \<Longrightarrow> i \<noteq> 0 \<Longrightarrow> freq nd < key h ((i - 1) div 2) \<Longrightarrow>
                 hole_heap (shifted h i) ((i - 1) div 2) \<Longrightarrow>
                 P (shifted h i) ((i - 1) div 2) h' j \<Longrightarrow> P h i h' j"
  shows "\<exists>h' j. insertMinHeap_loop h nd (int i) = Inr (h', int j) \<and> P h i h' j"
proof -
  have "\<forall>i. x = nd \<longrightarrow> ii = int i \<longrightarrow> hole_heap h i \<longrightarrow>
          (\<exists>h' j. insertMinHeap_loop h x ii = Inr (h', int j) \<and> P h i h' j)" for ii x
  proof (induction h x ii rule: insertMinHeap_loop.induct)
    case (1 h x ii)
    show ?case
    proof (intro allI impI)
      fix i assume x: "x = nd" and ii: "ii = int i" and hh: "hole_heap h i"
      let ?p = "(i - 1) div 2"
      have "\<exists>h' j. insertMinHeap_loop h nd ii = Inr (h', int j) \<and> P h i h' j"
      proof (cases "i = 0")
        case True
        then have "insertMinHeap_loop h nd ii = Inr (h, int i)"
          using ii by (subst insertMinHeap_loop.simps) simp
        with base [OF hh] True show ?thesis by blast
      next
        case False
        then have pi: "?p < i" "(ii - 1) sdiv 2 = int ?p" "ii \<noteq> 0"
          using ii parent_int [of i] by simp_all
        have iN: "i < unat (size_h h)" "i < length (array h)"
          using hh hole_heap_size [OF hh] by (simp_all add: hole_heap_def)
        have rp: "rd h ((ii - 1) sdiv 2) = Inr (the (array h ! ?p))"
          unfolding pi(2) using rd_hole [OF hh, of ?p] pi(1) iN by simp
        have some: "Some (the (array h ! ?p)) = array h ! ?p"
          using hh pi(1) iN by (simp add: hole_heap_def)
        show ?thesis
        proof (cases "freq nd < key h ?p")
          case lt: True
          then have lt': "freq nd < freq (the (array h ! ?p))" by (simp add: key_def)
          have w: "wr h ii (the (array h ! ?p)) = Inr (shifted h i)"
            unfolding wr_def some using ii iN by simp
          have hs: "hole_heap (shifted h i) ?p" by (rule hole_heap_shifted [OF hh False])
          from "1.IH" [OF pi(3) rp, unfolded x, OF lt' w] pi(2) hs
          obtain h' j where r: "insertMinHeap_loop (shifted h i) nd (int ?p) = Inr (h', int j)"
            "P (shifted h i) ?p h' j"
            by auto
          have "insertMinHeap_loop h nd ii = Inr (h', int j)"
            using pi(3) rp lt' w r(1) pi(2) by (subst insertMinHeap_loop.simps) simp
          with step [OF hh False lt hs r(2)] show ?thesis by blast
        next
          case ge: False
          then have "\<not> freq nd < freq (the (array h ! ?p))" by (simp add: key_def)
          then have "insertMinHeap_loop h nd ii = Inr (h, int i)"
            using pi(3) rp ii by (subst insertMinHeap_loop.simps) simp
          with base [OF hh] ge show ?thesis by blast
        qed
      qed
      then show "\<exists>h' j. insertMinHeap_loop h x ii = Inr (h', int j) \<and> P h i h' j"
        unfolding x .
    qed
  qed
  from this [of nd "int i", rule_format, OF refl refl hh] show ?thesis .
qed

lemma mset_shift_hole:
  assumes "i < length xs" "p < length xs" "p \<noteq> i"
  shows "mset ((xs[i := xs ! p])[p := v]) = mset (xs[i := v])"
proof -
  let ?ys = "xs[i := v]"
  have a: "(xs[i := xs ! p])[p := v] = ?ys[i := ?ys ! p, p := ?ys ! i]"
    using assms by (intro nth_equalityI) (auto simp: nth_list_update)
  have b: "mset (?ys[i := ?ys ! p, p := ?ys ! i]) = mset ?ys"
    by (rule mset_swap) (use assms in simp_all)
  show ?thesis by (simp only: a b)
qed

lemma mset_take_shift:
  assumes "i < n" "n \<le> length xs" "p < n" "p \<noteq> i"
  shows "mset (take n ((xs[i := xs ! p])[p := v])) = mset (take n (xs[i := v]))"
proof -
  let ?xs = "take n xs"
  have "take n ((xs[i := xs ! p])[p := v]) = (?xs[i := ?xs ! p])[p := v]"
    by (simp only: take_update_swap nth_take [OF assms(3)])
  moreover have "take n (xs[i := v]) = ?xs[i := v]"
    by (simp only: take_update_swap)
  moreover have "mset ((?xs[i := ?xs ! p])[p := v]) = mset (?xs[i := v])"
    by (rule mset_shift_hole) (use assms in simp_all)
  ultimately show ?thesis by (simp only:)
qed

lemma insertMinHeap_loop_wf:
  fixes h :: "('f::ord) MinHeap"
  assumes "hole_heap h i"
  shows "\<exists>h' j. insertMinHeap_loop h nd (int i) = Inr (h', int j) \<and>
           hole_heap h' j \<and> size_h h' = size_h h \<and> capacity h' = capacity h \<and>
           mset (take (unat (size_h h)) ((array h')[j := Some nd])) =
           mset (take (unat (size_h h)) ((array h)[i := Some nd]))"
proof -
  let ?P = "\<lambda>(h :: 'f MinHeap) i h' j.
           hole_heap h' j \<and> size_h h' = size_h h \<and> capacity h' = capacity h \<and>
           mset (take (unat (size_h h)) ((array h')[j := Some nd])) =
           mset (take (unat (size_h h)) ((array h)[i := Some nd]))"
  show ?thesis
  proof (rule insertMinHeap_loop_rule [OF assms, where P = ?P], goal_cases)
    case (1 h i)
    then show ?case by simp
  next
    case (2 h i h' j)
    let ?n = "unat (size_h h)"
    let ?p = "(i - 1) div 2"
    have b: "i < ?n" "?n \<le> length (array h)" "?p < ?n" "?p \<noteq> i"
      using 2(1,2) hole_heap_size [OF 2(1)] by (auto simp: hole_heap_def)
    from 2(5) mset_take_shift [OF b, of "Some nd"] show ?case by simp
  qed
qed

lemma sint32_small: "unat (w :: 32 word) < 2 ^ 31 \<Longrightarrow> sint w = uint w"
proof -
  assume a: "unat w < 2 ^ 31"
  have e: "uint w = int (unat w)" by (rule uint_nat)
  have a': "unat w < 2147483648" using a by simp
  have u: "- 2147483648 \<le> uint w" "uint w < 2147483648"
    using a' e by linarith+
  have "sint w = signed_take_bit (LENGTH(32) - Suc 0) (uint w)" by (rule sint_uint)
  also have "\<dots> = uint w"
    using u by (simp add: signed_take_bit_int_eq_self)
  finally show ?thesis .
qed

lemma unat_succ32: "(w :: 32 word) < c \<Longrightarrow> unat (w + 1) = unat w + 1"
proof -
  assume "w < c"
  then have "unat w < unat c" by (simp add: word_less_nat_alt)
  moreover have "unat c < 4294967296" using unsigned_less [of c] by simp
  ultimately have "unat w + 1 < 4294967296" by linarith
  then show ?thesis by (simp add: unat_word_ariths)
qed

lemma insertMinHeap_wf:
  fixes h :: "('f::ord) MinHeap"
  assumes "wf_heap h" "size_h h < capacity h"
  shows "\<exists>h'. insertMinHeap h nd = Inr h' \<and> wf_heap h' \<and> size_h h' = size_h h + 1 \<and>
           capacity h' = capacity h \<and> nodes h' = add_mset nd (nodes h)"
proof -
  let ?m = "unat (size_h h)"
  let ?h1 = "h\<lparr>size_h := size_h h + 1\<rparr>"
  have n: "unat (size_h h + 1) = ?m + 1" by (rule unat_succ32 [OF assms(2)])
  have m: "?m < unat (capacity h)" "?m < 2 ^ 30" "?m \<le> length (array h)"
    "length (array h) = unat (capacity h)"
    using assms wf_heap_size [OF assms(1)] unfolding word_less_nat_alt wf_heap_def by simp_all
  have le: "size_h h + 1 \<le> capacity h"
    unfolding word_le_nat_alt n using m(1) by simp
  have hh: "hole_heap ?h1 ?m"
    using assms(1) m le n by (auto simp: hole_heap_def wf_heap_def)
  have start: "sint (size_h h) = uint (size_h h)"
    using sint32_small [of "size_h h"] m(2) by simp
  from insertMinHeap_loop_wf [OF hh, of nd]
  obtain h2 j where l: "insertMinHeap_loop ?h1 nd (int ?m) = Inr (h2, int j)"
    "hole_heap h2 j" "size_h h2 = size_h h + 1" "capacity h2 = capacity h"
    "mset (take (?m + 1) ((array h2)[j := Some nd])) =
     mset (take (?m + 1) ((array h)[?m := Some nd]))"
    by (auto simp: n)
  let ?h' = "h2\<lparr>array := (array h2)[j := Some nd]\<rparr>"
  have j: "j < length (array h2)" using hole_heap_size [OF l(2)] by simp
  then have w: "wr h2 (int j) nd = Inr ?h'" by (simp add: wr_def)
  have r: "insertMinHeap h nd = Inr ?h'"
    using l(1) w by (simp add: insertMinHeap_def Let_def start)
  have wf': "wf_heap ?h'"
    using l(2) j by (auto simp: hole_heap_def wf_heap_def nth_list_update)
  have "take (?m + 1) ((array h)[?m := Some nd]) = take ?m (array h) @ [Some nd]"
    using m(1,4) by (simp add: take_Suc_conv_app_nth)
  then have "mset (take (?m + 1) ((array h2)[j := Some nd])) = add_mset (Some nd) (mset (take ?m (array h)))"
    using l(5) by simp
  then have "image_mset the (mset (take (?m + 1) ((array h2)[j := Some nd])))
      = add_mset nd (image_mset the (mset (take ?m (array h))))"
    by simp
  then have "nodes ?h' = add_mset nd (nodes h)"
    by (simp add: nodes_def l(3) n)
  with r wf' l(3,4) show ?thesis by auto
qed

lemma buildMinHeap_loop_wf:
  fixes h :: "('f::ord) MinHeap"
  assumes "wf_heap h" "k \<le> 2 ^ 30"
  shows "\<exists>h'. buildMinHeap_loop h (int k - 1) = Inr h' \<and> wf_heap h' \<and>
           size_h h' = size_h h \<and> capacity h' = capacity h \<and> nodes h' = nodes h"
  using assms
proof (induction k arbitrary: h)
  case 0
  then show ?case by (subst buildMinHeap_loop.simps) simp
next
  case (Suc k)
  from Suc.prems have k: "k < 2 ^ 30" by simp
  from minHeapify_wf [OF Suc.prems(1) k]
  obtain h1 where h1: "minHeapify h (int k) = Inr h1" "wf_heap h1" "size_h h1 = size_h h"
    "capacity h1 = capacity h" "nodes h1 = nodes h"
    by blast
  from Suc.IH [OF h1(2)] k
  obtain h' where h': "buildMinHeap_loop h1 (int k - 1) = Inr h'" "wf_heap h'"
    "size_h h' = size_h h1" "capacity h' = capacity h1" "nodes h' = nodes h1"
    by auto
  have "buildMinHeap_loop h (int (Suc k) - 1) = Inr h'"
    using h1(1) h'(1) by (subst buildMinHeap_loop.simps) simp
  with h1 h' show ?case by auto
qed

lemma buildMinHeap_start:
  assumes "wf_heap h"
  shows "(sint (size_h h - 1) - 1) sdiv 2 = int (heapify_count h) - 1"
proof -
  let ?n = "unat (size_h h)"
  have n30: "?n < 2 ^ 30" using wf_heap_size [OF assms] by simp
  have z: "(size_h h = 0) = (?n = 0)" "(size_h h = 1) = (?n = 1)"
    by (simp_all add: word_unat_eq_iff)
  consider "size_h h = 0" | "size_h h = 1" | "2 \<le> ?n"
    unfolding z by linarith
  then show ?thesis
  proof cases
    case 1
    then show ?thesis
      by (simp add: heapify_count_def signed_divide_int_def)
  next
    case 2
    then show ?thesis
      by (simp add: heapify_count_def signed_divide_int_def)
  next
    case 3
    then have ne: "size_h h \<noteq> 0" "size_h h \<noteq> 1" by auto
    have p: "unat (size_h h - 1) = ?n - 1" by (rule unat_pred32 [OF ne(1)])
    have "unat (size_h h - 1) < 2 ^ 31" using n30 p by simp
    then have "sint (size_h h - 1) = uint (size_h h - 1)" by (rule sint32_small)
    also have "\<dots> = int (?n - 1)" unfolding uint_nat p ..
    finally have s: "sint (size_h h - 1) - 1 = int (?n - 2)" using 3 by simp
    have "(sint (size_h h - 1) - 1) sdiv 2 = int (?n - 2) div 2"
      unfolding s by (rule sdiv2_nonneg) simp
    also have "\<dots> = int ((?n - 2) div 2)" by simp
    also have "\<dots> = int (?n div 2) - 1" using 3 by (simp add: of_nat_diff)
    finally show ?thesis using ne by (simp add: heapify_count_def)
  qed
qed

lemma buildMinHeap_wf:
  fixes h :: "('f::ord) MinHeap"
  assumes "wf_heap h"
  shows "\<exists>h'. buildMinHeap h = Inr h' \<and> wf_heap h' \<and>
           size_h h' = size_h h \<and> capacity h' = capacity h \<and> nodes h' = nodes h"
proof -
  have "unat (size_h h) div 2 \<le> unat (size_h h)" by simp
  then have "heapify_count h \<le> 2 ^ 30"
    using wf_heap_size [OF assms] by (auto simp: heapify_count_def)
  from buildMinHeap_loop_wf [OF assms this] show ?thesis
    by (simp add: buildMinHeap_def Let_def buildMinHeap_start [OF assms])
qed

lemma createAndBuildMinHeap_fill_ok:
  assumes "i \<le> n" "n \<le> length (array h)" "n \<le> length its" "n \<le> length frs"
  shows "createAndBuildMinHeap_fill h its frs (int n) (int i) =
           Inr (h\<lparr>array := take i (array h) @
                  map (\<lambda>j. Some (newNode (its ! j) (frs ! j))) [i..<n] @ drop n (array h)\<rparr>)"
  using assms
proof (induction "n - i" arbitrary: i h)
  case 0
  then have "i = n" by simp
  then show ?case by (subst createAndBuildMinHeap_fill.simps) simp
next
  case (Suc d)
  then have i: "i < n" "i < length (array h)" "i < length its" "i < length frs" by simp_all
  let ?x = "Some (newNode (its ! i) (frs ! i))"
  let ?h1 = "h\<lparr>array := (array h)[i := ?x]\<rparr>"
  have w: "wr h (int i) (newNode (its ! i) (frs ! i)) = Inr ?h1"
    using i by (simp add: wr_def)
  have d: "d = n - Suc i" using Suc.hyps(2) by simp
  have "createAndBuildMinHeap_fill ?h1 its frs (int n) (int (Suc i)) =
          Inr (?h1\<lparr>array := take (Suc i) (array ?h1) @
                  map (\<lambda>j. Some (newNode (its ! j) (frs ! j))) [Suc i..<n] @ drop n (array ?h1)\<rparr>)"
    using i Suc.prems by (intro Suc.hyps(1) [OF d]) simp_all
  moreover have "take (Suc i) (array ?h1) = take i (array h) @ [?x]"
    using i by (simp add: take_Suc_conv_app_nth)
  moreover have "drop n (array ?h1) = drop n (array h)"
    using i by simp
  moreover have "[i..<n] = i # [Suc i..<n]"
    using i by (simp add: upt_conv_Cons)
  ultimately have "createAndBuildMinHeap_fill ?h1 its frs (int n) (int i + 1) =
          Inr (h\<lparr>array := take i (array h) @
                  map (\<lambda>j. Some (newNode (its ! j) (frs ! j))) [i..<n] @ drop n (array h)\<rparr>)"
    by (simp add: add.commute)
  then show ?case
    using i w by (subst createAndBuildMinHeap_fill.simps) simp
qed

lemma unat_of_nat32: "n < 2 ^ 32 \<Longrightarrow> unat (of_nat n :: 32 word) = n"
  by (simp add: unat_of_nat)

lemma createAndBuildMinHeap_wf:
  fixes frs :: "('f::ord) list"
  assumes "n < 2 ^ 30" "n \<le> length its" "n \<le> length frs"
  shows "\<exists>h. createAndBuildMinHeap its frs (int n) = Inr h \<and> wf_heap h \<and>
           size_h h = of_nat n \<and> capacity h = of_nat n \<and>
           nodes h = mset (input_nodes its frs n)"
proof -
  let ?h0 = "createMinH (of_nat n) :: 'f MinHeap"
  have u: "unat (of_nat n :: 32 word) = n" using assms(1) by (intro unat_of_nat32) simp
  let ?arr = "map (\<lambda>j. Some (newNode (its ! j) (frs ! j))) [0..<n]"
  let ?h1 = "?h0\<lparr>array := ?arr, size_h := of_nat n\<rparr>"
  have "createAndBuildMinHeap_fill ?h0 its frs (int n) (int 0) =
          Inr (?h0\<lparr>array := take 0 (array ?h0) @ ?arr @ drop n (array ?h0)\<rparr>)"
    using assms by (intro createAndBuildMinHeap_fill_ok) (simp_all add: createMinH_def u)
  then have f: "createAndBuildMinHeap_fill ?h0 its frs (int n) 0 = Inr (?h0\<lparr>array := ?arr\<rparr>)"
    by (simp add: createMinH_def u)
  have wf1: "wf_heap ?h1"
    using assms(1) by (simp add: wf_heap_def createMinH_def u)
  have n1: "nodes ?h1 = mset (input_nodes its frs n)"
    by (simp add: nodes_def input_nodes_def u comp_def)
  from buildMinHeap_wf [OF wf1]
  obtain h where h: "buildMinHeap ?h1 = Inr h" "wf_heap h" "size_h h = size_h ?h1"
    "capacity h = capacity ?h1" "nodes h = nodes ?h1"
    by blast
  have "createAndBuildMinHeap its frs (int n) = Inr h"
    using f h(1) by (simp add: createAndBuildMinHeap_def)
  with h n1 show ?thesis by (simp add: createMinH_def)
qed

section \<open>Shape of the trees\<close>

lemma buildHuffmanTree_loop_wf:
  fixes h :: "('f::{ord,plus}) MinHeap"
  assumes "wf_heap h" "size_h h \<noteq> 0"
  shows "\<exists>h'. buildHuffmanTree_loop h = Inr h' \<and> wf_heap h' \<and> size_h h' = 1 \<and>
           all_leaves (nodes h') = all_leaves (nodes h) \<and>
           ((\<forall>t\<in>#nodes h. good_tree t) \<longrightarrow> (\<forall>t\<in>#nodes h'. good_tree t))"
  using assms
proof (induction "unat (size_h h)" arbitrary: h rule: less_induct)
  case less
  show ?case
  proof (cases "size_h h = 1")
    case True
    then have "buildHuffmanTree_loop h = Inr h"
      by (subst buildHuffmanTree_loop.simps) (simp add: checkSizeOne_def)
    with True less.prems show ?thesis by simp
  next
    case False
    let ?n = "unat (size_h h)"
    have z: "(size_h h = 0) = (?n = 0)" "(size_h h = 1) = (?n = 1)"
      by (simp_all add: word_unat_eq_iff)
    have n2: "2 \<le> ?n" using False less.prems(2) unfolding z by linarith
    from extractMin_wf [OF less.prems]
    obtain h1 where h1: "extractMin h = Inr (the (array h ! 0), h1)" "wf_heap h1"
      "size_h h1 = size_h h - 1" "capacity h1 = capacity h"
      "add_mset (the (array h ! 0)) (nodes h1) = nodes h"
      by blast
    let ?l = "the (array h ! 0)"
    have s1: "unat (size_h h1) = ?n - 1"
      unfolding h1(3) by (rule unat_pred32 [OF less.prems(2)])
    then have ne1: "size_h h1 \<noteq> 0" using n2 by (simp add: word_unat_eq_iff)
    from extractMin_wf [OF h1(2) ne1]
    obtain h2 where h2: "extractMin h1 = Inr (the (array h1 ! 0), h2)" "wf_heap h2"
      "size_h h2 = size_h h1 - 1" "capacity h2 = capacity h1"
      "add_mset (the (array h1 ! 0)) (nodes h2) = nodes h1"
      by blast
    let ?r = "the (array h1 ! 0)"
    have s2: "unat (size_h h2) = ?n - 2"
      unfolding h2(3) using unat_pred32 [OF ne1] s1 by simp
    have "length (array h) = unat (capacity h)"
      using less.prems(1) by (simp add: wf_heap_def)
    then have "unat (size_h h2) < unat (capacity h2)"
      unfolding h2(4) h1(4) using s2 n2 wf_heap_size [OF less.prems(1)]
      by linarith
    then have lt: "size_h h2 < capacity h2" by (simp add: word_less_nat_alt)
    let ?top = "MinHNode (CHR ''$'') (freq ?l + freq ?r) (Some ?l) (Some ?r)"
    from insertMinHeap_wf [OF h2(2) lt, of ?top]
    obtain h3 where h3: "insertMinHeap h2 ?top = Inr h3" "wf_heap h3"
      "size_h h3 = size_h h2 + 1" "capacity h3 = capacity h2"
      "nodes h3 = add_mset ?top (nodes h2)"
      by blast
    have s3: "unat (size_h h3) = ?n - 1"
      unfolding h3(3) using unat_succ32 [OF lt] s2 n2 by simp
    then have ne3: "size_h h3 \<noteq> 0" and dec: "unat (size_h h3) < ?n"
      using n2 by (simp_all add: word_unat_eq_iff)
    from less.hyps [OF dec h3(2) ne3]
    obtain h' where h': "buildHuffmanTree_loop h3 = Inr h'" "wf_heap h'" "size_h h' = 1"
      "all_leaves (nodes h') = all_leaves (nodes h3)"
      "(\<forall>t\<in>#nodes h3. good_tree t) \<longrightarrow> (\<forall>t\<in>#nodes h'. good_tree t)"
      by blast
    have run: "buildHuffmanTree_loop h = Inr h'"
      using False h1(1) h2(1) h3(1) h'(1)
      by (subst buildHuffmanTree_loop.simps) (simp add: checkSizeOne_def Let_def)
    have nh: "nodes h = add_mset ?l (add_mset ?r (nodes h2))"
      using h1(5) h2(5) by simp
    have "all_leaves (nodes h3) = all_leaves (nodes h)"
      unfolding nh h3(5) by (simp add: all_leaves_def)
    then have A: "all_leaves (nodes h') = all_leaves (nodes h)"
      using h'(4) by simp
    have "(\<forall>t\<in>#nodes h. good_tree t) \<longrightarrow> (\<forall>t\<in>#nodes h3. good_tree t)"
      unfolding nh h3(5) by (simp add: good_tree_def)
    then have B: "(\<forall>t\<in>#nodes h. good_tree t) \<longrightarrow> (\<forall>t\<in>#nodes h'. good_tree t)"
      using h'(5) by blast
    show ?thesis
      using run h'(2,3) A B by (intro exI [of _ h'] conjI)
  qed
qed

lemma all_leaves_input_nodes:
  "all_leaves (mset (input_nodes its frs n)) = mset (input_leaves its frs n)"
  by (induction n) (simp_all add: all_leaves_def input_nodes_def input_leaves_def newNode_def)

lemma good_tree_input_nodes:
  "t \<in> set (input_nodes its frs n) \<Longrightarrow> good_tree t"
  by (auto simp: input_nodes_def good_tree_def newNode_def)

lemma nodes_size0: "size_h h = 0 \<Longrightarrow> nodes h = {#}"
  by (simp add: nodes_def)

lemma buildHuffmanTree_ok:
  fixes frs :: "('f::{ord,plus}) list"
  assumes "0 < n" "n < 2 ^ 30" "n \<le> length its" "n \<le> length frs"
  shows "\<exists>t. buildHuffmanTree its frs (int n) = Inr t \<and> full t \<and> weights_ok t \<and>
           mset (leaf_list t) = mset (input_leaves its frs n)"
proof -
  from createAndBuildMinHeap_wf [OF assms(2,3,4)]
  obtain h where h: "createAndBuildMinHeap its frs (int n) = Inr h" "wf_heap h"
    "size_h h = of_nat n" "nodes h = mset (input_nodes its frs n)"
    by blast
  have "unat (size_h h) = n" unfolding h(3) using assms(2) by (intro unat_of_nat32) simp
  then have ne: "size_h h \<noteq> 0" using assms(1) by (simp add: word_unat_eq_iff)
  from buildHuffmanTree_loop_wf [OF h(2) ne]
  obtain h' where h': "buildHuffmanTree_loop h = Inr h'" "wf_heap h'" "size_h h' = 1"
    "all_leaves (nodes h') = all_leaves (nodes h)"
    "(\<forall>t\<in>#nodes h. good_tree t) \<longrightarrow> (\<forall>t\<in>#nodes h'. good_tree t)"
    by blast
  have ne': "size_h h' \<noteq> 0" using h'(3) by simp
  let ?t = "the (array h' ! 0)"
  from extractMin_wf [OF h'(2) ne']
  obtain h'' where h'': "extractMin h' = Inr (?t, h'')" "size_h h'' = size_h h' - 1"
    "add_mset ?t (nodes h'') = nodes h'"
    by blast
  have "nodes h'' = {#}" using h''(2) h'(3) by (intro nodes_size0) simp
  then have nh: "nodes h' = {#?t#}" using h''(3) by simp
  have run: "buildHuffmanTree its frs (int n) = Inr ?t"
    using h(1) h'(1) h''(1) by (simp add: buildHuffmanTree_def)
  have "\<forall>t\<in>#nodes h. good_tree t"
    unfolding h(4) using good_tree_input_nodes by auto
  with h'(5) have g: "good_tree ?t" unfolding nh by simp
  have "mset (leaf_list ?t) = all_leaves (nodes h')"
    unfolding nh by (simp add: all_leaves_def)
  also have "\<dots> = mset (input_leaves its frs n)"
    unfolding h'(4) h(4) by (rule all_leaves_input_nodes)
  finally show ?thesis
    using run g by (auto simp: good_tree_def)
qed

lemma freq_sum_leaves:
  fixes t :: "('f::monoid_add) MinHNode"
  shows "full t \<Longrightarrow> weights_ok t \<Longrightarrow> freq t = sum_list (map snd (leaf_list t))"
proof (induction t)
  case (MinHNode it fr l r)
  show ?case
  proof (cases l)
    case None
    with MinHNode.prems show ?thesis by (cases r) simp_all
  next
    case (Some a)
    with MinHNode.prems obtain b where b: "r = Some b" by (cases r) simp_all
    from MinHNode.prems Some b have "freq a = sum_list (map snd (leaf_list a))"
      "freq b = sum_list (map snd (leaf_list b))"
      by (simp_all add: MinHNode.IH)
    with MinHNode.prems Some b show ?thesis by simp
  qed
qed

lemma map_snd_input_leaves:
  "n \<le> length frs \<Longrightarrow> map snd (input_leaves its frs n) = take n frs"
  by (intro nth_equalityI) (simp_all add: input_leaves_def)

lemma map_fst_input_leaves:
  "n \<le> length its \<Longrightarrow> map fst (input_leaves its frs n) = take n its"
  by (intro nth_equalityI) (simp_all add: input_leaves_def)

lemma freq_bottom_up:
  fixes t :: "('f::plus) MinHNode"
  shows "weights_ok t \<Longrightarrow> freq t = bottom_up_sum t"
proof (induction t)
  case (MinHNode it fr l r)
  show ?case
  proof (cases l)
    case None
    then show ?thesis by simp
  next
    case (Some a)
    show ?thesis
    proof (cases r)
      case None
      with Some show ?thesis by simp
    next
      case (Some b)
      from MinHNode.prems \<open>l = Some a\<close> Some
      have "freq a = bottom_up_sum a" "freq b = bottom_up_sum b"
        by (simp_all add: MinHNode.IH)
      with MinHNode.prems \<open>l = Some a\<close> Some show ?thesis by simp
    qed
  qed
qed

text \<open>
  Some sums and comparisons of doubles, as the hardware gives them: \<open>1 + 1 = 2\<close>;
  \<open>0.1 + 0.2 = 0.30000000000000004\<close>; \<open>2^53 + 1 = 2^53\<close> (a tie, to even) and
  \<open>2^53 + 3 = 2^53 + 4\<close>; \<open>1 + -1 = +0\<close>; \<open>-0 + -0 = -0\<close>; the smallest subnormal number added
  to itself; the largest finite double added to itself (an infinity); \<open>1.5 + -1 = 0.5\<close>;
  the largest subnormal number plus the smallest (the smallest normal number);
  \<open>\<infinity> + 1 = \<infinity>\<close>; \<open>-0 < +0\<close> is false; \<open>-1\<close> is less than the smallest subnormal number;
  \<open>0.2 < \<infinity>\<close>; a NaN is neither less nor greater than 1.
\<close>

lemma double_examples:
  "Double 0x3FF0000000000000 + Double 0x3FF0000000000000 = Double 0x4000000000000000 \<and>
   Double 0x3FB999999999999A + Double 0x3FC999999999999A = Double 0x3FD3333333333334 \<and>
   Double 0x4340000000000000 + Double 0x3FF0000000000000 = Double 0x4340000000000000 \<and>
   Double 0x4340000000000000 + Double 0x4008000000000000 = Double 0x4340000000000002 \<and>
   Double 0x3FF0000000000000 + Double 0xBFF0000000000000 = Double 0x0000000000000000 \<and>
   Double 0x8000000000000000 + Double 0x8000000000000000 = Double 0x8000000000000000 \<and>
   Double 0x0000000000000001 + Double 0x0000000000000001 = Double 0x0000000000000002 \<and>
   Double 0x7FEFFFFFFFFFFFFF + Double 0x7FEFFFFFFFFFFFFF = Double 0x7FF0000000000000 \<and>
   Double 0x3FF8000000000000 + Double 0xBFF0000000000000 = Double 0x3FE0000000000000 \<and>
   Double 0x000FFFFFFFFFFFFF + Double 0x0000000000000001 = Double 0x0010000000000000 \<and>
   Double 0x7FF0000000000000 + Double 0x3FF0000000000000 = Double 0x7FF0000000000000 \<and>
   \<not> Double 0x8000000000000000 < Double 0x0000000000000000 \<and>
   Double 0xBFF0000000000000 < Double 0x0000000000000001 \<and>
   Double 0x3FC999999999999A < Double 0x7FF0000000000000 \<and>
   \<not> Double 0x7FF8000000000000 < Double 0x3FF0000000000000 \<and>
   \<not> Double 0x3FF0000000000000 < Double 0x7FF8000000000000"
  by code_simp

text \<open>
  C7, as stated, fails for the weights the program has. The weight at the root is the sum
  taken in the order of the merges, and the addition of doubles is rounded. Take the three
  symbols \<open>a\<close>, \<open>b\<close>, \<open>c\<close> with the weights 0.2, 0.9, 0.7, that is the doubles
  \<open>0x3FC999999999999A\<close>, \<open>0x3FECCCCCCCCCCCCD\<close>, \<open>0x3FE6666666666666\<close>. The builder merges \<open>a\<close>
  and \<open>c\<close> into a node of weight \<open>0.2 + 0.7 = 0.8999999999999999\<close> (\<open>0x3FECCCCCCCCCCCCC\<close>), then
  that node and \<open>b\<close>: the root has the weight \<open>0.8999999999999999 + 0.9 = 1.7999999999999998\<close>
  (\<open>0x3FFCCCCCCCCCCCCC\<close>). The sum of the three input weights in the order of the table,
  taken from the left or from the right, is \<open>1.8\<close> (\<open>0x3FFCCCCCCCCCCCCD\<close>).
\<close>

theorem buildHuffmanTree_sum_counterexample:
  "buildHuffmanTree ''abc''
     [Double 0x3FC999999999999A, Double 0x3FECCCCCCCCCCCCD, Double 0x3FE6666666666666] 3 =
   Inr (MinHNode CHR ''$'' (Double 0x3FFCCCCCCCCCCCCC)
          (Some (MinHNode CHR ''$'' (Double 0x3FECCCCCCCCCCCCC)
             (Some (MinHNode CHR ''a'' (Double 0x3FC999999999999A) None None))
             (Some (MinHNode CHR ''c'' (Double 0x3FE6666666666666) None None))))
          (Some (MinHNode CHR ''b'' (Double 0x3FECCCCCCCCCCCCD) None None))) \<and>
   (Double 0x3FC999999999999A + Double 0x3FECCCCCCCCCCCCD) + Double 0x3FE6666666666666 =
     Double 0x3FFCCCCCCCCCCCCD \<and>
   Double 0x3FC999999999999A + (Double 0x3FECCCCCCCCCCCCD + Double 0x3FE6666666666666) =
     Double 0x3FFCCCCCCCCCCCCD \<and>
   Double 0x3FFCCCCCCCCCCCCC \<noteq> Double 0x3FFCCCCCCCCCCCCD"
  by code_simp

text \<open>
  C7, amended. For an alphabet of \<open>sz\<close> symbols (\<open>0 < sz < 2^30\<close>, the arrays holding at least
  \<open>sz\<close> entries) and weights of any type with \<open><\<close> and \<open>+\<close>, doubles among them, the builder
  returns a tree in which every node has no child or two children; its leaves are, as a
  multiset of (symbol, weight) pairs, exactly the \<open>sz\<close> input pairs, so each leaf is one
  input symbol and each input symbol is one leaf; the weight of every internal node is
  the sum of the weights of its two children, as the type of the weights computes it, so
  the weight at the root is the sum of the leaf weights taken bottom-up along the tree.
  When the addition of the weights is exact (the weights \<open>exact\<close> are of a type that is a
  commutative monoid, such as the integers or the reals), the weight at the root is the
  sum of all input weights.
\<close>

theorem buildHuffmanTree_shape:
  fixes frs :: "('f::{ord,plus}) list" and exact :: "('g::{ord,comm_monoid_add}) list"
  assumes "0 < sz" "sz < 2 ^ 30" "nat sz \<le> length its" "nat sz \<le> length frs"
    "nat sz \<le> length exact"
  shows "(\<exists>t. buildHuffmanTree its frs sz = Inr t \<and> full t \<and>
           mset (leaf_list t) = mset (input_leaves its frs (nat sz)) \<and>
           weights_ok t \<and> freq t = bottom_up_sum t) \<and>
         (\<exists>t. buildHuffmanTree its exact sz = Inr t \<and> freq t = sum_list (take (nat sz) exact))"
proof -
  have n: "0 < nat sz" "nat sz < 2 ^ 30" "int (nat sz) = sz"
    using assms(1,2) by simp_all
  from buildHuffmanTree_ok [OF n(1,2) assms(3,4)] n(3)
  obtain t where t: "buildHuffmanTree its frs sz = Inr t" "full t" "weights_ok t"
    "mset (leaf_list t) = mset (input_leaves its frs (nat sz))"
    by auto
  have A: "\<exists>t. buildHuffmanTree its frs sz = Inr t \<and> full t \<and>
           mset (leaf_list t) = mset (input_leaves its frs (nat sz)) \<and>
           weights_ok t \<and> freq t = bottom_up_sum t"
    using t freq_bottom_up [OF t(3)] by blast
  from buildHuffmanTree_ok [OF n(1,2) assms(3,5)] n(3)
  obtain u where u: "buildHuffmanTree its exact sz = Inr u" "full u" "weights_ok u"
    "mset (leaf_list u) = mset (input_leaves its exact (nat sz))"
    by auto
  have "freq u = sum_list (map snd (leaf_list u))"
    by (rule freq_sum_leaves [OF u(2,3)])
  also have "\<dots> = sum_mset (image_mset snd (mset (leaf_list u)))"
    by (metis mset_map sum_mset_sum_list)
  also have "\<dots> = sum_list (map snd (input_leaves its exact (nat sz)))"
    unfolding u(4) by (metis mset_map sum_mset_sum_list)
  also have "\<dots> = sum_list (take (nat sz) exact)"
    by (simp only: map_snd_input_leaves [OF assms(5)])
  finally have B: "\<exists>t. buildHuffmanTree its exact sz = Inr t \<and>
      freq t = sum_list (take (nat sz) exact)"
    using u(1) by blast
  from A B show ?thesis by (rule conjI)
qed

theorem buildHuffmanTree_shape_witness:
  "(\<exists>t. buildHuffmanTree ''abc''
          [Double 0x3FC999999999999A, Double 0x3FECCCCCCCCCCCCD, Double 0x3FE6666666666666] 3 = Inr t \<and>
        full t \<and>
        mset (leaf_list t) =
          {#(CHR ''a'', Double 0x3FC999999999999A), (CHR ''b'', Double 0x3FECCCCCCCCCCCCD),
            (CHR ''c'', Double 0x3FE6666666666666)#} \<and>
        weights_ok t \<and> freq t = bottom_up_sum t) \<and>
   (\<exists>t. buildHuffmanTree ''abc'' [3, 1, 2 :: int] 3 = Inr t \<and> freq t = 6)"
  using buildHuffmanTree_shape [of 3 "''abc''"
      "[Double 0x3FC999999999999A, Double 0x3FECCCCCCCCCCCCD, Double 0x3FE6666666666666]"
      "[3, 1, 2 :: int]"]
  by (simp add: input_leaves_def upt_rec numeral_3_eq_3)

section \<open>Bit paths\<close>

lemma char_of_48: "char_of (48::nat) = CHR ''0''"
  by code_simp

lemma char_of_49: "char_of (49::nat) = CHR ''1''"
  by code_simp

lemma fprintf_d_bit: "fprintf_d (if b then 1 else 0) = [if b then CHR ''1'' else CHR ''0'']"
  by (simp add: fprintf_d_def dec_nat.simps char_of_48 char_of_49)

lemma printArray_loop_holds:
  assumes "arr_holds arr pre" "i \<le> length pre"
  shows "printArray_loop arr (int (length pre)) (int i) out = Inr (out @ render_bits (drop i pre))"
  using assms
proof (induction "length pre - i" arbitrary: i out)
  case 0
  then show ?case by (subst printArray_loop.simps) (simp add: render_bits_def)
next
  case (Suc d)
  from Suc.hyps(2) have il: "i < length pre" by linarith
  with Suc.prems have i: "i < length pre" "i < length arr" "arr ! i = Some (if pre ! i then 1 else 0)"
    by (simp_all add: arr_holds_def)
  have r: "arr_rd arr (int i) = Inr (if pre ! i then 1 else 0)"
    using i by (simp add: arr_rd_def)
  have d: "d = length pre - Suc i" using Suc.hyps(2) by simp
  have "printArray_loop arr (int (length pre)) (int (Suc i)) (out @ fprintf_d (if pre ! i then 1 else 0))
        = Inr ((out @ fprintf_d (if pre ! i then 1 else 0)) @ render_bits (drop (Suc i) pre))"
    using i Suc.prems by (intro Suc.hyps(1) [OF d]) simp_all
  moreover have "drop i pre = pre ! i # drop (Suc i) pre"
    using i by (simp add: Cons_nth_drop_Suc)
  ultimately have "printArray_loop arr (int (length pre)) (int i + 1)
                     (out @ fprintf_d (if pre ! i then 1 else 0))
        = Inr (out @ render_bits (drop i pre))"
    by (simp add: fprintf_d_bit render_bits_def add.commute)
  then show ?case
    using i r by (subst printArray_loop.simps) simp
qed

lemma printArray_holds:
  assumes "arr_holds arr pre"
  shows "printArray arr (int (length pre)) out nl =
           Inr (out @ render_bits pre @ (if nl then [CHR 0x0A] else []))"
  using printArray_loop_holds [OF assms, of 0 out]
  by (simp add: printArray_def)

lemma code_paths_leaf: "code_paths (MinHNode it fr None None) c = (if it = c then [[]] else [])"
  by (simp add: code_paths_def)

lemma code_paths_node:
  "l \<noteq> None \<or> r \<noteq> None \<Longrightarrow>
   code_paths (MinHNode it fr l r) c =
     map ((#) False) (case l of None \<Rightarrow> [] | Some a \<Rightarrow> code_paths a c) @
     map ((#) True) (case r of None \<Rightarrow> [] | Some b \<Rightarrow> code_paths b c)"
  by (auto simp: code_paths_def filter_map comp_def case_prod_unfold split: option.splits)

lemma arr_holds_snoc:
  assumes "arr_holds arr pre" "length pre < length arr"
  shows "arr_wr arr (int (length pre)) (if b then 1 else 0) =
           Inr (arr[length pre := Some (if b then 1 else 0)])"
    and "arr_holds (arr[length pre := Some (if b then 1 else 0)]) (pre @ [b])"
  using assms by (auto simp: arr_wr_def arr_holds_def nth_list_update nth_append)

lemma arr_holds_butlast: "arr_holds arr (pre @ [b]) \<Longrightarrow> arr_holds arr pre"
  by (auto simp: arr_holds_def nth_append)

lemma printHCodeForCharacter_paths:
  assumes "arr_holds arr pre" "length pre + depth t \<le> length arr"
  shows "\<exists>arr'. printHCodeForCharacter t target arr (int (length pre)) out nl =
            Inr (arr', out @ concat (map (\<lambda>p. render_bits (pre @ p) @ newline_if nl)
                                      (code_paths t target))) \<and>
           length arr' = length arr \<and> arr_holds arr' pre"
  using assms
proof (induction t arbitrary: arr pre out)
  case (MinHNode it fr l r)
  let ?top = "int (length pre)"
  have child: "\<exists>arr'.
      (case c of None \<Rightarrow> Inr (arr0, out0)
       | Some a \<Rightarrow>
           (case arr_wr arr0 ?top v of Inl e \<Rightarrow> Inl e
            | Inr arr1 \<Rightarrow> printHCodeForCharacter a target arr1 (?top + 1) out0 nl)) =
      Inr (arr', out0 @ concat (map (\<lambda>p. render_bits (pre @ b # p) @ newline_if nl)
                            (case c of None \<Rightarrow> [] | Some a \<Rightarrow> code_paths a target))) \<and>
      length arr' = length arr0 \<and> arr_holds arr' pre"
    if c: "c = l \<or> c = r" and h: "arr_holds arr0 pre" and len: "length arr0 = length arr"
      and v: "v = (if b then 1 else 0)"
    for c b v arr0 out0
  proof (cases c)
    case None
    with h show ?thesis by simp
  next
    case (Some a)
    with c have a: "a \<in> set_option l \<or> a \<in> set_option r" by auto
    from Some c have d: "depth a + 1 \<le> depth (MinHNode it fr l r)" by auto
    with MinHNode.prems(2) len have lt: "length pre < length arr0"
      and le: "length (pre @ [b]) + depth a \<le> length (arr0[length pre := Some (if b then 1 else 0)])"
      by simp_all
    note w = arr_holds_snoc [OF h lt, of b]
    from a MinHNode.IH(1) [OF _ w(2) le] MinHNode.IH(2) [OF _ w(2) le]
    obtain arr' where r:
      "printHCodeForCharacter a target (arr0[length pre := Some (if b then 1 else 0)])
          (int (length (pre @ [b]))) out0 nl =
        Inr (arr', out0 @ concat (map (\<lambda>p. render_bits ((pre @ [b]) @ p) @ newline_if nl)
                                   (code_paths a target)))"
      "length arr' = length (arr0[length pre := Some (if b then 1 else 0)])"
      "arr_holds arr' (pre @ [b])"
      by blast
    from r(1) have "printHCodeForCharacter a target (arr0[length pre := Some (if b then 1 else 0)])
          (?top + 1) out0 nl =
        Inr (arr', out0 @ concat (map (\<lambda>p. render_bits (pre @ b # p) @ newline_if nl)
                                   (code_paths a target)))"
      by (simp add: add.commute)
    with w(1) r(2) arr_holds_butlast [OF r(3)] Some v show ?thesis
      by simp
  qed
  from child [of l arr 0 False out] MinHNode.prems(1)
  obtain arr2 where l: "(case l of None \<Rightarrow> Inr (arr, out)
       | Some a \<Rightarrow>
           (case arr_wr arr ?top 0 of Inl e \<Rightarrow> Inl e
            | Inr arr1 \<Rightarrow> printHCodeForCharacter a target arr1 (?top + 1) out nl)) =
      Inr (arr2, out @ concat (map (\<lambda>p. render_bits (pre @ False # p) @ newline_if nl)
                            (case l of None \<Rightarrow> [] | Some a \<Rightarrow> code_paths a target)))"
      "length arr2 = length arr" "arr_holds arr2 pre"
    by auto
  let ?out2 = "out @ concat (map (\<lambda>p. render_bits (pre @ False # p) @ newline_if nl)
                            (case l of None \<Rightarrow> [] | Some a \<Rightarrow> code_paths a target))"
  from child [of r arr2 1 True ?out2] l(2,3)
  obtain arr4 where r: "(case r of None \<Rightarrow> Inr (arr2, ?out2)
       | Some a \<Rightarrow>
           (case arr_wr arr2 ?top 1 of Inl e \<Rightarrow> Inl e
            | Inr arr1 \<Rightarrow> printHCodeForCharacter a target arr1 (?top + 1) ?out2 nl)) =
      Inr (arr4, ?out2 @ concat (map (\<lambda>p. render_bits (pre @ True # p) @ newline_if nl)
                            (case r of None \<Rightarrow> [] | Some a \<Rightarrow> code_paths a target)))"
      "length arr4 = length arr" "arr_holds arr4 pre"
    by auto
  show ?case
  proof (cases "l = None \<and> r = None")
    case True
    with l(1) r(1) have e: "arr4 = arr" by simp
    show ?thesis
      using True MinHNode.prems(1)
      by (subst printHCodeForCharacter.simps)
         (simp add: isLeaf_def code_paths_leaf printArray_holds)
  next
    case False
    then have cp: "code_paths (MinHNode it fr l r) target =
       map ((#) False) (case l of None \<Rightarrow> [] | Some a \<Rightarrow> code_paths a target) @
       map ((#) True) (case r of None \<Rightarrow> [] | Some b \<Rightarrow> code_paths b target)"
      by (intro code_paths_node) auto
    have nleaf: "\<not> isLeaf (MinHNode it fr l r)"
      using False by (simp add: isLeaf_def)
    have "printHCodeForCharacter (MinHNode it fr l r) target arr ?top out nl =
       Inr (arr4, ?out2 @ concat (map (\<lambda>p. render_bits (pre @ True # p) @ newline_if nl)
                            (case r of None \<Rightarrow> [] | Some a \<Rightarrow> code_paths a target)))"
      using l(1) r(1) nleaf
      by (subst printHCodeForCharacter.simps) simp
    then show ?thesis
      using r(2,3) unfolding cp by (simp add: comp_def)
  qed
qed

lemma map_fst_paths: "map fst (paths t) = map fst (leaf_list t)"
proof (induction t)
  case (MinHNode it fr l r)
  have "map fst (case l of None \<Rightarrow> [] | Some a \<Rightarrow> paths a)
      = map fst (case l of None \<Rightarrow> [] | Some a \<Rightarrow> leaf_list a)"
    using MinHNode.IH(1) by (cases l) simp_all
  moreover have "map fst (case r of None \<Rightarrow> [] | Some a \<Rightarrow> paths a)
      = map fst (case r of None \<Rightarrow> [] | Some a \<Rightarrow> leaf_list a)"
    using MinHNode.IH(2) by (cases r) simp_all
  ultimately show ?case
    by (simp add: comp_def case_prod_unfold)
qed

lemma paths_prefix_free:
  "(a, pa) \<in> set (paths t) \<Longrightarrow> (b, pb) \<in> set (paths t) \<Longrightarrow> prefix pa pb \<Longrightarrow> a = b"
proof (induction t arbitrary: pa pb)
  case (MinHNode it fr l r)
  show ?case
  proof (cases "l = None \<and> r = None")
    case True
    with MinHNode.prems show ?thesis by simp
  next
    case False
    let ?L = "case l of None \<Rightarrow> [] | Some a \<Rightarrow> paths a"
    let ?R = "case r of None \<Rightarrow> [] | Some a \<Rightarrow> paths a"
    from False MinHNode.prems(1)
    consider qa where "pa = False # qa" "(a, qa) \<in> set ?L"
      | qa where "pa = True # qa" "(a, qa) \<in> set ?R"
      by auto
    then show ?thesis
    proof cases
      case 1
      with MinHNode.prems(3) obtain qb where qb: "pb = False # qb" "prefix qa qb"
        by (cases pb) auto
      with False MinHNode.prems(2) have "(b, qb) \<in> set ?L" by auto
      with 1(2) qb(2) MinHNode.IH(1) show ?thesis
        by (cases l) auto
    next
      case 2
      with MinHNode.prems(3) obtain qb where qb: "pb = True # qb" "prefix qa qb"
        by (cases pb) auto
      with False MinHNode.prems(2) have "(b, qb) \<in> set ?R" by auto
      with 2(2) qb(2) MinHNode.IH(2) show ?thesis
        by (cases r) auto
    qed
  qed
qed

lemma depth_less_leaves: "full t \<Longrightarrow> depth t < length (leaf_list t)"
proof (induction t)
  case (MinHNode it fr l r)
  show ?case
  proof (cases l)
    case None
    with MinHNode.prems show ?thesis by (cases r) simp_all
  next
    case (Some a)
    with MinHNode.prems obtain b where b: "r = Some b" by (cases r) simp_all
    from MinHNode.prems Some b have "depth a < length (leaf_list a)" "depth b < length (leaf_list b)"
      by (simp_all add: MinHNode.IH)
    with Some b show ?thesis by simp
  qed
qed

lemma prefix_render_bits: "prefix (render_bits p) (render_bits q) = prefix p q"
proof (induction p arbitrary: q)
  case Nil
  then show ?case by (simp add: render_bits_def)
next
  case (Cons x p)
  then show ?case
    by (cases q) (auto simp: render_bits_def)
qed

lemma arr_holds_fresh: "arr_holds fresh_arr []"
  by (simp add: arr_holds_def)

lemma printed_code:
  assumes "depth t \<le> 128"
  shows "\<exists>arr'. printHCodeForCharacter t c fresh_arr 0 out nl =
           Inr (arr', out @ concat (map (\<lambda>p. render_bits p @ newline_if nl) (code_paths t c)))"
proof -
  have "length [] + depth t \<le> length fresh_arr"
    using assms by (simp add: fresh_arr_def ASCII_SIZE_def)
  from printHCodeForCharacter_paths [OF arr_holds_fresh this, of c out nl]
  show ?thesis by auto
qed

lemma code_paths_iff: "p \<in> set (code_paths t c) \<longleftrightarrow> (c, p) \<in> set (paths t)"
  by (force simp: code_paths_def)

lemma code_paths_nonempty: "c \<in> fst ` set (paths t) \<Longrightarrow> code_paths t c \<noteq> []"
proof -
  assume "c \<in> fst ` set (paths t)"
  then obtain p where "(c, p) \<in> set (paths t)" by auto
  then have "p \<in> set (code_paths t c)" by (simp add: code_paths_iff)
  then show ?thesis by auto
qed

lemma printed_prefix_free:
  assumes "a \<noteq> b" "a \<in> fst ` set (paths t)" "b \<in> fst ` set (paths t)"
  shows "\<not> prefix (concat (map render_bits (code_paths t a)))
                  (concat (map render_bits (code_paths t b)))"
proof
  assume pr: "prefix (concat (map render_bits (code_paths t a)))
                  (concat (map render_bits (code_paths t b)))"
  from code_paths_nonempty [OF assms(2)] obtain pa ra where a: "code_paths t a = pa # ra"
    by (cases "code_paths t a") auto
  from code_paths_nonempty [OF assms(3)] obtain pb rb where b: "code_paths t b = pb # rb"
    by (cases "code_paths t b") auto
  have ina: "(a, pa) \<in> set (paths t)" using a code_paths_iff [of pa t a] by simp
  have inb: "(b, pb) \<in> set (paths t)" using b code_paths_iff [of pb t b] by simp
  let ?Y = "concat (map render_bits rb)"
  from pr have "prefix (render_bits pa) (render_bits pb @ ?Y)"
    unfolding a b by (auto dest: append_prefixD)
  moreover have "prefix (render_bits pb) (render_bits pb @ ?Y)" by simp
  ultimately have "prefix (render_bits pa) (render_bits pb) \<or> prefix (render_bits pb) (render_bits pa)"
    by (rule prefix_same_cases)
  then have "prefix pa pb \<or> prefix pb pa" by (simp add: prefix_render_bits)
  with ina inb paths_prefix_free [of a pa t b pb] paths_prefix_free [of b pb t a pa]
  have "a = b" by auto
  with assms(1) show False by simp
qed

text \<open>
  C6. For an alphabet of \<open>sz\<close> symbols (\<open>0 < sz < 2^30\<close>) the builder returns a tree whose
  leaf symbols are the input symbols, and for two distinct symbols that are leaves of it,
  neither root-to-leaf path is a prefix of the other. When the alphabet fits the path
  buffer (\<open>sz \<le> ASCII_SIZE\<close>) the same holds for the bit strings that
  \<^verbatim>\<open>printHCodeForCharacter\<close> writes for the two symbols.
\<close>

theorem codes_prefix_free:
  fixes frs :: "('f::{ord,plus}) list"
  assumes "0 < sz" "sz < 2 ^ 30" "nat sz \<le> length its" "nat sz \<le> length frs"
  shows "\<exists>t. buildHuffmanTree its frs sz = Inr t \<and>
           fst ` set (paths t) = set (take (nat sz) its) \<and>
           (\<forall>a b pa pb. a \<noteq> b \<and> (a, pa) \<in> set (paths t) \<and> (b, pb) \<in> set (paths t) \<longrightarrow>
              \<not> prefix pa pb \<and> \<not> prefix pb pa) \<and>
           (sz \<le> ASCII_SIZE \<longrightarrow>
              (\<forall>a b. a \<noteq> b \<and> a \<in> set (take (nat sz) its) \<and> b \<in> set (take (nat sz) its) \<longrightarrow>
                 (\<exists>arra ca arrb cb.
                    printHCodeForCharacter t a fresh_arr 0 [] False = Inr (arra, ca) \<and>
                    printHCodeForCharacter t b fresh_arr 0 [] False = Inr (arrb, cb) \<and>
                    \<not> prefix ca cb \<and> \<not> prefix cb ca)))"
proof -
  have n: "0 < nat sz" "nat sz < 2 ^ 30" "int (nat sz) = sz"
    using assms(1,2) by simp_all
  from buildHuffmanTree_ok [OF n(1,2) assms(3,4)] n(3)
  obtain t where t: "buildHuffmanTree its frs sz = Inr t" "full t"
    "mset (leaf_list t) = mset (input_leaves its frs (nat sz))"
    by auto
  have "mset (map fst (paths t)) = mset (map fst (input_leaves its frs (nat sz)))"
    unfolding map_fst_paths using t(3) by (metis mset_map)
  then have "set (map fst (paths t)) = set (take (nat sz) its)"
    unfolding map_fst_input_leaves [OF assms(3)] by (rule mset_eq_setD)
  then have syms: "fst ` set (paths t) = set (take (nat sz) its)" by simp
  have pf: "\<forall>a b pa pb. a \<noteq> b \<and> (a, pa) \<in> set (paths t) \<and> (b, pb) \<in> set (paths t) \<longrightarrow>
              \<not> prefix pa pb \<and> \<not> prefix pb pa"
    using paths_prefix_free [of _ _ t] by blast
  have pr: "\<exists>arra ca arrb cb.
                    printHCodeForCharacter t a fresh_arr 0 [] False = Inr (arra, ca) \<and>
                    printHCodeForCharacter t b fresh_arr 0 [] False = Inr (arrb, cb) \<and>
                    \<not> prefix ca cb \<and> \<not> prefix cb ca"
    if sz: "sz \<le> ASCII_SIZE" and ab: "a \<noteq> b" "a \<in> set (take (nat sz) its)"
      "b \<in> set (take (nat sz) its)" for a b
  proof -
    have "length (leaf_list t) = nat sz"
      using mset_eq_length [OF t(3)] by (simp add: input_leaves_def)
    with depth_less_leaves [OF t(2)] sz have d: "depth t \<le> 128"
      by (simp add: ASCII_SIZE_def)
    from printed_code [OF d, of a "[]" False]
    obtain arra where A: "printHCodeForCharacter t a fresh_arr 0 [] False =
        Inr (arra, concat (map render_bits (code_paths t a)))"
      by auto
    from printed_code [OF d, of b "[]" False]
    obtain arrb where B: "printHCodeForCharacter t b fresh_arr 0 [] False =
        Inr (arrb, concat (map render_bits (code_paths t b)))"
      by auto
    from ab syms have in': "a \<in> fst ` set (paths t)" "b \<in> fst ` set (paths t)" "b \<noteq> a"
      by simp_all
    from A B printed_prefix_free [OF ab(1) in'(1,2)] printed_prefix_free [OF in'(3,2,1)]
    show ?thesis by blast
  qed
  from t(1) syms pf pr show ?thesis by blast
qed

theorem codes_prefix_free_witness:
  "\<exists>t. buildHuffmanTree ''abc'' [3, 1, 2 :: int] 3 = Inr t \<and>
     (\<exists>arra ca arrb cb.
        printHCodeForCharacter t CHR ''a'' fresh_arr 0 [] False = Inr (arra, ca) \<and>
        printHCodeForCharacter t CHR ''b'' fresh_arr 0 [] False = Inr (arrb, cb) \<and>
        \<not> prefix ca cb \<and> \<not> prefix cb ca)"
proof -
  from codes_prefix_free [of 3 "''abc''" "[3, 1, 2 :: int]"]
  obtain t where t: "buildHuffmanTree ''abc'' [3, 1, 2 :: int] 3 = Inr t"
    and p: "3 \<le> ASCII_SIZE \<longrightarrow>
              (\<forall>a b. a \<noteq> b \<and> a \<in> set (take (nat 3) ''abc'') \<and> b \<in> set (take (nat 3) ''abc'') \<longrightarrow>
                 (\<exists>arra ca arrb cb.
                    printHCodeForCharacter t a fresh_arr 0 [] False = Inr (arra, ca) \<and>
                    printHCodeForCharacter t b fresh_arr 0 [] False = Inr (arrb, cb) \<and>
                    \<not> prefix ca cb \<and> \<not> prefix cb ca))"
    by auto
  have "(3::int) \<le> ASCII_SIZE" by (simp add: ASCII_SIZE_def)
  with p have "\<exists>arra ca arrb cb.
        printHCodeForCharacter t CHR ''a'' fresh_arr 0 [] False = Inr (arra, ca) \<and>
        printHCodeForCharacter t CHR ''b'' fresh_arr 0 [] False = Inr (arrb, cb) \<and>
        \<not> prefix ca cb \<and> \<not> prefix cb ca"
    by simp
  with t show ?thesis by blast
qed

section \<open>Encoding and decoding with one tree\<close>

lemma decodeFile_loop_append:
  "decodeFile_loop root st (xs @ ys) = decodeFile_loop root (decodeFile_loop root st xs) ys"
  by (induction xs arbitrary: st) simp_all

text \<open>Reading the bits of a path from a node above a leaf writes the leaf's symbol.\<close>

lemma decode_path:
  "(c, p) \<in> set (paths cur) \<Longrightarrow> p \<noteq> [] \<Longrightarrow>
     decodeFile_loop root (cur, out) (render_bits p) = (root, out @ [c])"
proof (induction cur arbitrary: p)
  case (MinHNode it fr l r)
  let ?cur = "MinHNode it fr l r"
  from MinHNode.prems have nl: "\<not> (l = None \<and> r = None)"
    by (auto split: if_splits)
  let ?L = "case l of None \<Rightarrow> [] | Some a \<Rightarrow> paths a"
  let ?R = "case r of None \<Rightarrow> [] | Some a \<Rightarrow> paths a"
  have sub: "decodeFile_loop root (?cur, out) (render_bits (b # q)) = (root, out @ [c])"
    if ch: "(if b then r else l) = Some a" and q: "(c, q) \<in> set (paths a)"
      and ih: "\<And>p. (c, p) \<in> set (paths a) \<Longrightarrow> p \<noteq> [] \<Longrightarrow>
                 decodeFile_loop root (a, out) (render_bits p) = (root, out @ [c])"
    for b q a
  proof -
    have step: "decodeFile_step root (?cur, out) (if b then CHR ''1'' else CHR ''0'') =
                  (if isLeaf a then (root, out @ [item a]) else (a, out))"
      using ch by (auto simp: decodeFile_step_def Let_def split: if_splits)
    show ?thesis
    proof (cases "isLeaf a")
      case True
      then have "paths a = [(item a, [])]" by (cases a) (simp add: isLeaf_def)
      with q have "c = item a" "q = []" by simp_all
      with step True show ?thesis by (simp add: render_bits_def)
    next
      case False
      then have "q \<noteq> []" using q by (cases a) (auto simp: isLeaf_def)
      from ih [OF q this] step False show ?thesis by (simp add: render_bits_def)
    qed
  qed
  from nl MinHNode.prems(1)
  consider q where "p = False # q" "(c, q) \<in> set ?L" | q where "p = True # q" "(c, q) \<in> set ?R"
    by auto
  then show ?case
  proof cases
    case 1
    then obtain a where a: "l = Some a" "(c, q) \<in> set (paths a)" by (cases l) auto
    show ?thesis
      unfolding 1(1) using a MinHNode.IH(1) [of a] by (intro sub [of False a]) auto
  next
    case 2
    then obtain a where a: "r = Some a" "(c, q) \<in> set (paths a)" by (cases r) auto
    show ?thesis
      unfolding 2(1) using a MinHNode.IH(2) [of a] by (intro sub [of True a]) auto
  qed
qed

text \<open>
  A tree is decodable for a set of symbols when its root is not a leaf and each of the
  symbols is the symbol of exactly one leaf.
\<close>

lemma encode_decode_loop:
  assumes "\<not> isLeaf root" "depth root \<le> 128"
    and "\<forall>c\<in>set input. \<exists>p. code_paths root c = [p]"
  shows "\<exists>enc. encodeFile_loop root input out = Inr (out @ enc) \<and>
           set enc \<subseteq> {CHR ''0'', CHR ''1''} \<and>
           decodeFile_loop root (root, dec) enc = (root, dec @ input)"
  using assms(3)
proof (induction input arbitrary: out dec)
  case Nil
  then show ?case by simp
next
  case (Cons c input)
  then obtain p where p: "code_paths root c = [p]" by auto
  then have inp: "(c, p) \<in> set (paths root)" using code_paths_iff [of p root c] by simp
  have pne: "p \<noteq> []"
    using inp assms(1) by (cases root) (auto simp: isLeaf_def)
  from printed_code [OF assms(2), of c out False] p
  obtain arr' where pr: "printHCodeForCharacter root c fresh_arr 0 out False =
      Inr (arr', out @ render_bits p)"
    by auto
  from Cons.IH [of "out @ render_bits p" "dec @ [c]"] Cons.prems
  obtain enc where enc: "encodeFile_loop root input (out @ render_bits p) =
      Inr ((out @ render_bits p) @ enc)" "set enc \<subseteq> {CHR ''0'', CHR ''1''}"
      "decodeFile_loop root (root, dec @ [c]) enc = (root, (dec @ [c]) @ input)"
    by auto
  have "encodeFile_loop root (c # input) out = Inr (out @ render_bits p @ enc)"
    using pr enc(1) by simp
  moreover have "set (render_bits p @ enc) \<subseteq> {CHR ''0'', CHR ''1''}"
    using enc(2) by (auto simp: render_bits_def)
  moreover have "decodeFile_loop root (root, dec) (render_bits p @ enc) = (root, dec @ c # input)"
    using decode_path [OF inp pne, of root dec] enc(3) by (simp add: decodeFile_loop_append)
  ultimately show ?case by blast
qed

lemma filter_fst_distinct:
  "distinct (map fst ps) \<Longrightarrow> (c, p) \<in> set ps \<Longrightarrow> filter (\<lambda>(d, q). d = c) ps = [(c, p)]"
proof (induction ps)
  case Nil
  then show ?case by simp
next
  case (Cons x ps)
  show ?case
  proof (cases "fst x = c")
    case True
    with Cons.prems have "c \<notin> fst ` set ps" by simp
    then have "\<forall>y\<in>set ps. fst y \<noteq> c" by (auto simp: image_iff)
    then have "filter (\<lambda>(d, q). d = c) ps = []"
      by (auto simp: filter_empty_conv)
    moreover from True Cons.prems \<open>c \<notin> fst ` set ps\<close> have "x = (c, p)"
      by (cases x) (auto simp: image_iff)
    ultimately show ?thesis by simp
  next
    case False
    with Cons show ?thesis by (cases x) auto
  qed
qed

lemma length_ascii_characters: "length ascii_characters = 128"
  by (simp add: ascii_characters_def ASCII_SIZE_def)

lemma distinct_ascii_characters: "distinct ascii_characters"
  unfolding ascii_characters_def ASCII_SIZE_def
  by (auto simp: distinct_map inj_on_def)

lemma ascii_characters_iff: "c \<in> set ascii_characters \<longleftrightarrow> (of_char c :: nat) < 128"
proof
  assume "c \<in> set ascii_characters"
  then show "(of_char c :: nat) < 128"
    by (auto simp: ascii_characters_def ASCII_SIZE_def)
next
  assume "(of_char c :: nat) < 128"
  then have "of_char c \<in> set [0..<128]" by simp
  then have "char_of (of_char c :: nat) \<in> char_of ` set [0..<128]" by (rule imageI)
  then show "c \<in> set ascii_characters"
    by (simp add: ascii_characters_def ASCII_SIZE_def)
qed

lemma leaf_list_leaf: "isLeaf t \<Longrightarrow> leaf_list t = [(item t, freq t)]"
  by (cases t) (simp add: isLeaf_def)

lemma paths_leaf: "isLeaf t \<Longrightarrow> paths t = [(item t, [])]"
  by (cases t) (simp add: isLeaf_def)

lemma paths_nonleaf: "\<not> isLeaf t \<Longrightarrow> (c, p) \<in> set (paths t) \<Longrightarrow> p \<noteq> []"
  by (cases t) (auto simp: isLeaf_def split: if_splits)

text \<open>The tree that the three commands build from a table of 128 probabilities.\<close>

lemma ascii_tree:
  fixes P :: "('f::{ord,plus}) list"
  assumes "length P = 128"
  shows "\<exists>t. buildHuffmanTree ascii_characters P ASCII_SIZE = Inr t \<and> \<not> isLeaf t \<and>
           depth t \<le> 128 \<and>
           (\<forall>c. (of_char c :: nat) < 128 \<longrightarrow> (\<exists>p. code_paths t c = [p] \<and> p \<noteq> []))"
proof -
  have "\<exists>t. buildHuffmanTree ascii_characters P (int 128) = Inr t \<and> full t \<and> weights_ok t \<and>
           mset (leaf_list t) = mset (input_leaves ascii_characters P 128)"
    using assms by (intro buildHuffmanTree_ok) (simp_all add: length_ascii_characters)
  then obtain t where t: "buildHuffmanTree ascii_characters P ASCII_SIZE = Inr t" "full t"
    "mset (leaf_list t) = mset (input_leaves ascii_characters P 128)"
    by (auto simp: ASCII_SIZE_def)
  have len: "length (leaf_list t) = 128"
    using mset_eq_length [OF t(3)] by (simp add: input_leaves_def)
  then have nl: "\<not> isLeaf t" using leaf_list_leaf [of t] by auto
  have d: "depth t \<le> 128" using depth_less_leaves [OF t(2)] len by simp
  have "map fst (input_leaves ascii_characters P 128) = ascii_characters"
    using map_fst_input_leaves [of 128 ascii_characters P] by (simp add: length_ascii_characters)
  then have m: "mset (map fst (paths t)) = mset ascii_characters"
    unfolding map_fst_paths using t(3) by (metis mset_map)
  then have dist: "distinct (map fst (paths t))"
    using distinct_ascii_characters by (metis mset_eq_imp_distinct_iff)
  from m have st: "set (map fst (paths t)) = set ascii_characters"
    by (rule mset_eq_setD)
  have "\<exists>p. code_paths t c = [p] \<and> p \<noteq> []" if c: "(of_char c :: nat) < 128" for c
  proof -
    from c have "c \<in> set (map fst (paths t))" unfolding st by (simp add: ascii_characters_iff)
    then obtain p where p: "(c, p) \<in> set (paths t)" by auto
    from filter_fst_distinct [OF dist p] have "code_paths t c = [p]"
      by (simp add: code_paths_def)
    moreover have "p \<noteq> []" using p nl by (rule paths_nonleaf [rotated])
    ultimately show ?thesis by blast
  qed
  with t(1) nl d show ?thesis by blast
qed

text \<open>
  C1. For every table \<open>P\<close> of 128 probabilities, all \<open>\<ge> 0\<close>, and every input \<open>B\<close> whose bytes
  are all in the range 0-127, \<^verbatim>\<open>encodeFile\<close> returns a string of the characters \<open>0\<close> and \<open>1\<close>,
  and \<^verbatim>\<open>decodeFile\<close> on that string with the same table returns \<open>B\<close>. (The proof does not
  use that the probabilities are \<open>\<ge> 0\<close>.)
\<close>

theorem encode_decode_round_trip:
  fixes P :: "('f::{ord,zero,plus}) list"
  assumes "length P = 128" "\<forall>p\<in>set P. 0 \<le> p" "\<forall>c\<in>set B. (of_char c :: nat) < 128"
  shows "\<exists>enc. encodeFile B P = Inr enc \<and> set enc \<subseteq> {CHR ''0'', CHR ''1''} \<and>
           decodeFile enc P = Inr B"
proof -
  from ascii_tree [OF assms(1)]
  obtain t where t: "buildHuffmanTree ascii_characters P ASCII_SIZE = Inr t" "\<not> isLeaf t"
    "depth t \<le> 128"
    "\<forall>c. (of_char c :: nat) < 128 \<longrightarrow> (\<exists>p. code_paths t c = [p] \<and> p \<noteq> [])"
    by blast
  have "\<forall>c\<in>set B. \<exists>p. code_paths t c = [p]"
    using assms(3) t(4) by blast
  from encode_decode_loop [OF t(2,3) this, of "[]" "[]"]
  obtain enc where enc: "encodeFile_loop t B [] = Inr enc" "set enc \<subseteq> {CHR ''0'', CHR ''1''}"
    "decodeFile_loop t (t, []) enc = (t, B)"
    by auto
  have "encodeFile B P = Inr enc"
    using t(1) enc(1) by (simp add: encodeFile_def)
  moreover have "decodeFile enc P = Inr B"
    using t(1) enc(3) by (simp add: decodeFile_def)
  ultimately show ?thesis using enc(2) by blast
qed

theorem encode_decode_round_trip_witness:
  "(\<exists>enc. encodeFile [] (replicate 128 (0::int)) = Inr enc \<and>
           decodeFile enc (replicate 128 (0::int)) = Inr []) \<and>
   (\<exists>enc. encodeFile ''aaaa'' (replicate 128 (0::int)) = Inr enc \<and>
           decodeFile enc (replicate 128 (0::int)) = Inr ''aaaa'') \<and>
   (\<exists>enc. encodeFile ascii_characters (replicate 128 (0::int)) = Inr enc \<and>
           decodeFile enc (replicate 128 (0::int)) = Inr ascii_characters)"
proof -
  have P: "length (replicate 128 (0::int)) = 128" "\<forall>p\<in>set (replicate 128 (0::int)). 0 \<le> p"
    by simp_all
  have "\<forall>c\<in>set []. (of_char c :: nat) < 128" by simp
  moreover have "\<forall>c\<in>set ''aaaa''. (of_char c :: nat) < 128" by simp
  moreover have "\<forall>c\<in>set ascii_characters. (of_char c :: nat) < 128"
    by (simp add: ascii_characters_iff)
  ultimately show ?thesis
    using encode_decode_round_trip [OF P, of "[]"] encode_decode_round_trip [OF P, of "''aaaa''"]
      encode_decode_round_trip [OF P, of ascii_characters]
    by blast
qed

section \<open>Characters that the decoder ignores\<close>

text \<open>
  C5. \<^verbatim>\<open>decodeFile\<close> builds its tree from the 128 symbols of \<^verbatim>\<open>ascii_characters\<close> and
  starts at the root. For every table \<open>P\<close> of 128 probabilities the tree is built, and in
  every state \<open>(cur, out)\<close> that the loop is in after it has read some characters \<open>read\<close>,
  the current node is not a leaf and has both children. In such a state every character
  that is not \<open>0\<close> or \<open>1\<close> (or that would ask for a child that is not there) is ignored:
  the step changes neither the current node nor the output, and the decoded file is the
  one obtained without that character, whatever follows. No error is raised: the result
  is a file (\<open>Inr\<close>), not a fault.
\<close>

theorem decode_ignore:
  fixes P :: "('f::{ord,plus}) list"
  assumes "length P = 128"
  shows "\<exists>root. buildHuffmanTree ascii_characters P ASCII_SIZE = Inr root \<and>
     (\<forall>read cur out.
        decodeFile_loop root (root, []) read = (cur, out) \<longrightarrow>
        \<not> isLeaf cur \<and> left cur \<noteq> None \<and> right cur \<noteq> None \<and>
        (\<forall>bit'.
           (bit' \<noteq> CHR ''0'' \<and> bit' \<noteq> CHR ''1'') \<or> (bit' = CHR ''0'' \<and> left cur = None)
             \<or> (bit' = CHR ''1'' \<and> right cur = None) \<longrightarrow>
           decodeFile_step root (cur, out) bit' = (cur, out) \<and>
           (\<forall>rest. decodeFile (read @ bit' # rest) P = decodeFile (read @ rest) P \<and>
                   decodeFile (read @ rest) P = Inr (snd (decodeFile_loop root (cur, out) rest)))))"
proof -
  from ascii_tree [OF assms]
  obtain t where t: "buildHuffmanTree ascii_characters P ASCII_SIZE = Inr t" "\<not> isLeaf t"
    by blast
  have "\<exists>u. buildHuffmanTree ascii_characters P (int 128) = Inr u \<and> full u \<and> weights_ok u \<and>
           mset (leaf_list u) = mset (input_leaves ascii_characters P 128)"
    using assms by (intro buildHuffmanTree_ok) (simp_all add: length_ascii_characters)
  then have ft: "full t" using t(1) by (auto simp: ASCII_SIZE_def)
  have main: "\<not> isLeaf cur \<and> left cur \<noteq> None \<and> right cur \<noteq> None \<and>
        (\<forall>b. (b \<noteq> CHR ''0'' \<and> b \<noteq> CHR ''1'') \<or> (b = CHR ''0'' \<and> left cur = None)
             \<or> (b = CHR ''1'' \<and> right cur = None) \<longrightarrow>
           decodeFile_step t (cur, out) b = (cur, out) \<and>
           (\<forall>rest. decodeFile (read @ b # rest) P = decodeFile (read @ rest) P \<and>
                   decodeFile (read @ rest) P = Inr (snd (decodeFile_loop t (cur, out) rest))))"
    if st: "decodeFile_loop t (t, []) read = (cur, out)" for read cur out
  proof -
    have "\<not> isLeaf (fst (decodeFile_loop t (t, []) read))"
      using t(2) by (intro decodeFile_loop_nonleaf) simp_all
    then have nl: "\<not> isLeaf cur" using st by simp
    have "full (fst (decodeFile_loop t (t, []) read))"
      using ft by (intro decodeFile_loop_full) simp_all
    then have "full cur" using st by simp
    then have ch: "left cur \<noteq> None \<and> right cur \<noteq> None"
      using nl by (rule full_children)
    have run: "decodeFile (read @ rest) P = Inr (snd (decodeFile_loop t (cur, out) rest))" for rest
      using t(1) st by (simp add: decodeFile_def decodeFile_loop_append)
    have "decodeFile_step t (cur, out) b = (cur, out) \<and>
           (\<forall>rest. decodeFile (read @ b # rest) P = decodeFile (read @ rest) P \<and>
                   decodeFile (read @ rest) P = Inr (snd (decodeFile_loop t (cur, out) rest)))"
      if b: "(b \<noteq> CHR ''0'' \<and> b \<noteq> CHR ''1'') \<or> (b = CHR ''0'' \<and> left cur = None)
             \<or> (b = CHR ''1'' \<and> right cur = None)" for b
    proof -
      have step: "decodeFile_step t (cur, out) b = (cur, out)"
        by (rule decodeFile_step_ignored [OF nl b])
      have "decodeFile (read @ b # rest) P = Inr (snd (decodeFile_loop t (cur, out) rest))" for rest
        using t(1) st step by (simp add: decodeFile_def decodeFile_loop_append)
      with run step show ?thesis by simp
    qed
    with nl ch show ?thesis by simp
  qed
  show ?thesis
    by (rule exI [of _ t], rule conjI, rule t(1), intro allI impI, rule main)
qed

theorem decode_ignore_witness:
  "length (replicate 128 (0::int)) = 128 \<and> CHR ''x'' \<noteq> CHR ''0'' \<and> CHR ''x'' \<noteq> CHR ''1'' \<and>
   (\<exists>root cur out. buildHuffmanTree ascii_characters (replicate 128 (0::int)) ASCII_SIZE = Inr root \<and>
      decodeFile_loop root (root, []) ''01'' = (cur, out) \<and> \<not> isLeaf cur \<and>
      decodeFile_step root (cur, out) CHR ''x'' = (cur, out)) \<and>
   decodeFile ''01x10'' (replicate 128 (0::int)) = decodeFile ''0110'' (replicate 128 (0::int))"
proof -
  have P: "length (replicate 128 (0::int)) = 128" by simp
  from decode_ignore [OF P]
  obtain root where r:
    "buildHuffmanTree ascii_characters (replicate 128 (0::int)) ASCII_SIZE = Inr root \<and>
     (\<forall>read cur out.
        decodeFile_loop root (root, []) read = (cur, out) \<longrightarrow>
        \<not> isLeaf cur \<and> left cur \<noteq> None \<and> right cur \<noteq> None \<and>
        (\<forall>bit'.
           (bit' \<noteq> CHR ''0'' \<and> bit' \<noteq> CHR ''1'') \<or> (bit' = CHR ''0'' \<and> left cur = None)
             \<or> (bit' = CHR ''1'' \<and> right cur = None) \<longrightarrow>
           decodeFile_step root (cur, out) bit' = (cur, out) \<and>
           (\<forall>rest. decodeFile (read @ bit' # rest) (replicate 128 (0::int)) =
                     decodeFile (read @ rest) (replicate 128 (0::int)) \<and>
                   decodeFile (read @ rest) (replicate 128 (0::int)) =
                     Inr (snd (decodeFile_loop root (cur, out) rest)))))" ..
  obtain cur out where st: "decodeFile_loop root (root, []) ''01'' = (cur, out)"
    by (rule prod.exhaust)
  have x: "CHR ''x'' \<noteq> CHR ''0'' \<and> CHR ''x'' \<noteq> CHR ''1''" by simp
  note at = r [THEN conjunct2, rule_format, OF st]
  from at have nl: "\<not> isLeaf cur" by (rule conjunct1)
  from x have xs: "(CHR ''x'' \<noteq> CHR ''0'' \<and> CHR ''x'' \<noteq> CHR ''1'') \<or>
      (CHR ''x'' = CHR ''0'' \<and> left cur = None) \<or> (CHR ''x'' = CHR ''1'' \<and> right cur = None)"
    by (rule disjI1)
  note ab = at [THEN conjunct2, THEN conjunct2, THEN conjunct2, rule_format, OF xs]
  from ab [THEN conjunct2, rule_format, of "''10''", THEN conjunct1]
  have b: "decodeFile ''01x10'' (replicate 128 (0::int)) =
           decodeFile ''0110'' (replicate 128 (0::int))"
    by (simp only: append.simps)
  have e: "\<exists>root cur out.
      buildHuffmanTree ascii_characters (replicate 128 (0::int)) ASCII_SIZE = Inr root \<and>
      decodeFile_loop root (root, []) ''01'' = (cur, out) \<and> \<not> isLeaf cur \<and>
      decodeFile_step root (cur, out) CHR ''x'' = (cur, out)"
    using r [THEN conjunct1] st nl ab [THEN conjunct1] by (intro exI conjI)
  from P x e b show ?thesis by (simp only: simp_thms)
qed

section \<open>An alphabet of one symbol\<close>

lemma encodeFile_loop_leaf:
  assumes "isLeaf t"
  shows "encodeFile_loop t input out = Inr out"
proof (induction input)
  case Nil
  then show ?case by simp
next
  case (Cons ch input)
  have d: "depth t \<le> 128" using assms by (cases t) (simp add: isLeaf_def)
  have "concat (map render_bits (code_paths t ch)) = []"
    using assms by (cases t) (simp add: isLeaf_def code_paths_leaf render_bits_def)
  with printed_code [OF d, of ch out False]
  obtain arr' where "printHCodeForCharacter t ch fresh_arr 0 out False = Inr (arr', out)"
    by auto
  with Cons show ?case by simp
qed

lemma single_leaf_tree:
  assumes "full t" "mset (leaf_list t) = {#(c, w)#}"
  shows "t = MinHNode c w None None"
proof (cases t)
  case (MinHNode it fr l r)
  show ?thesis
  proof (cases l)
    case None
    with assms MinHNode show ?thesis by (cases r) simp_all
  next
    case (Some a)
    with assms(1) MinHNode obtain b where b: "r = Some b" "full a" "full b"
      by (cases r) simp_all
    from depth_less_leaves [OF b(2)] depth_less_leaves [OF b(3)]
    have "2 \<le> length (leaf_list a) + length (leaf_list b)" by linarith
    moreover have "mset (leaf_list t) = mset [(c, w)]" using assms(2) by simp
    then have "length (leaf_list t) = 1"
      using mset_eq_length [of "leaf_list t" "[(c, w)]"] by simp
    ultimately show ?thesis using MinHNode Some b by simp
  qed
qed

text \<open>
  C3, as stated, fails in its last part: with the one-symbol alphabet \<open>a\<close> the tree is a
  single leaf, the input \<open>a\<close> is encoded as the empty string, and decoding the empty string
  gives the empty output, not \<open>a\<close>.
\<close>

theorem single_symbol_round_trip_counterexample:
  "buildHuffmanTree ''a'' [1::int] 1 = Inr (MinHNode CHR ''a'' 1 None None) \<and>
   encodeFile_loop (MinHNode CHR ''a'' (1::int) None None) ''a'' [] = Inr [] \<and>
   snd (decodeFile_loop (MinHNode CHR ''a'' (1::int) None None)
          (MinHNode CHR ''a'' 1 None None, []) []) \<noteq> ''a''"
proof -
  have "buildHuffmanTree ''a'' [1::int] 1 = Inr (MinHNode CHR ''a'' 1 None None)"
    by code_simp
  moreover have "encodeFile_loop (MinHNode CHR ''a'' (1::int) None None) ''a'' [] = Inr []"
    by (rule encodeFile_loop_leaf) (simp add: isLeaf_def)
  ultimately show ?thesis by simp
qed

text \<open>
  C3, amended. For an alphabet of size 1 the builder yields a tree that is a single leaf,
  the code written for that symbol has length zero, every input is encoded as the empty
  string, and the empty string is decoded as the empty output: encoding and then decoding
  gives back the input exactly when the input is empty.
\<close>

theorem single_symbol_alphabet:
  fixes w :: "'f::{ord,plus}"
  shows "buildHuffmanTree [c] [w] 1 = Inr (MinHNode c w None None) \<and>
         isLeaf (MinHNode c w None None) \<and>
         (\<exists>arr. printHCodeForCharacter (MinHNode c w None None) c fresh_arr 0 [] False =
                  Inr (arr, [])) \<and>
         encodeFile_loop (MinHNode c w None None) input [] = Inr [] \<and>
         decodeFile_loop (MinHNode c w None None) (MinHNode c w None None, []) [] =
           (MinHNode c w None None, []) \<and>
         (snd (decodeFile_loop (MinHNode c w None None) (MinHNode c w None None, []) []) = input)
           = (input = [])"
proof -
  let ?t = "MinHNode c w None None"
  have "\<exists>t. buildHuffmanTree [c] [w] (int 1) = Inr t \<and> full t \<and> weights_ok t \<and>
           mset (leaf_list t) = mset (input_leaves [c] [w] 1)"
    by (intro buildHuffmanTree_ok) simp_all
  then obtain t where t: "buildHuffmanTree [c] [w] 1 = Inr t" "full t"
    "mset (leaf_list t) = {#(c, w)#}"
    by (auto simp: input_leaves_def)
  have b: "buildHuffmanTree [c] [w] 1 = Inr ?t"
    using t(1) single_leaf_tree [OF t(2,3)] by simp
  have l: "isLeaf ?t" by (simp add: isLeaf_def)
  have "depth ?t \<le> 128" by simp
  from printed_code [OF this, of c "[]" False]
  have p: "\<exists>arr. printHCodeForCharacter ?t c fresh_arr 0 [] False = Inr (arr, [])"
    by (simp add: code_paths_leaf render_bits_def)
  have e: "encodeFile_loop ?t input [] = Inr []"
    by (rule encodeFile_loop_leaf [OF l])
  from b l p e show ?thesis by auto
qed

section \<open>The code listing\<close>

lemma ascii_characters_nth: "j < 128 \<Longrightarrow> ascii_characters ! j = char_of j"
  by (simp add: ascii_characters_def ASCII_SIZE_def)

lemma int_of_char_ascii: "j < 128 \<Longrightarrow> int_of_char (char_of j) = int j"
  by (simp add: int_of_char_def of_char_int_nat)

lemma generateAndPrintHuffmanCodes_loop_ok:
  assumes "depth t \<le> 128" "i \<le> 128"
  shows "generateAndPrintHuffmanCodes_loop t (int i) out =
           Inr (out @ concat (map (listing_entry t) [i..<128]))"
  using assms(2)
proof (induction "128 - i" arbitrary: i out)
  case 0
  then have "i = 128" by simp
  then show ?case
    by (subst generateAndPrintHuffmanCodes_loop.simps) (simp add: ASCII_SIZE_def)
next
  case (Suc d)
  then have i: "i < 128" by linarith
  have d: "d = 128 - Suc i" using Suc.hyps(2) by simp
  have up: "[i..<128] = i # [Suc i..<128]" using i by (simp add: upt_conv_Cons)
  have ih: "generateAndPrintHuffmanCodes_loop t (int i + 1) out' =
              Inr (out' @ concat (map (listing_entry t) [Suc i..<128]))" for out'
    using Suc.hyps(1) [OF d, of out'] i by (simp add: add.commute)
  have c: "ascii_characters ! i = char_of i"
    using i by (simp add: ascii_characters_nth)
  have v: "int_of_char (char_of i) = int i"
    using i by (simp add: int_of_char_ascii)
  consider "i < 32" | "32 \<le> i" "i \<le> 126" | "126 < i" by linarith
  then show ?case
  proof cases
    case 1
    then have "listing_entry t i = ''No code'' @ [CHR 0x0A]"
      by (simp add: listing_entry_def)
    moreover have "\<not> 32 \<le> int_of_char (char_of i)" using 1 v by simp
    ultimately show ?thesis
      using i ih
      by (subst generateAndPrintHuffmanCodes_loop.simps)
         (simp add: ASCII_SIZE_def length_ascii_characters Let_def up c)
  next
    case 2
    from printed_code [OF assms(1), of "char_of i" out True]
    obtain arr' where "printHCodeForCharacter t (char_of i) fresh_arr 0 out True =
        Inr (arr', out @ listing_entry t i)"
      using 2 by (auto simp: listing_entry_def)
    moreover have "32 \<le> int_of_char (char_of i)" "int_of_char (char_of i) \<le> 126"
      using 2 v by simp_all
    ultimately show ?thesis
      using i ih
      by (subst generateAndPrintHuffmanCodes_loop.simps)
         (simp add: ASCII_SIZE_def length_ascii_characters Let_def up c)
  next
    case 3
    then have "listing_entry t i = ''No code'' @ [CHR 0x0A]"
      by (simp add: listing_entry_def)
    moreover have "\<not> int_of_char (char_of i) \<le> 126" using 3 v by simp
    ultimately show ?thesis
      using i ih
      by (subst generateAndPrintHuffmanCodes_loop.simps)
         (simp add: ASCII_SIZE_def length_ascii_characters Let_def up c)
  qed
qed

lemma count_newlines_concat:
  assumes "\<forall>x\<in>set xs. length (filter ((=) CHR 0x0A) (f x)) = 1"
  shows "length (filter ((=) CHR 0x0A) (concat (map f xs))) = length xs"
  using assms by (induction xs) simp_all

text \<open>
  C9. For every table of 128 probabilities the listing is the concatenation, for the
  symbol values \<open>j = 0, ..., 127\<close> in ascending order, of one line each (128 newline
  characters in all): for \<open>32 \<le> j \<le> 126\<close> the line is the bit path of the leaf that holds
  symbol \<open>j\<close>, written with the characters \<open>0\<close> and \<open>1\<close>; for the other values it is the text
  \<open>No code\<close>. 95 of the values are in the range 32-126 and 33 are not.
\<close>

theorem code_listing:
  fixes P :: "('f::{ord,plus}) list"
  assumes "length P = 128"
  shows "\<exists>t code out.
           buildHuffmanTree ascii_characters P ASCII_SIZE = Inr t \<and>
           (\<forall>j < 128. (char_of j, code j) \<in> set (paths t) \<and> code_paths t (char_of j) = [code j] \<and>
                        code j \<noteq> []) \<and>
           generateAndPrintHuffmanCodes P = Inr out \<and>
           out = concat (map (\<lambda>j. if 32 \<le> j \<and> j \<le> 126
                                    then render_bits (code j) @ [CHR 0x0A]
                                    else ''No code'' @ [CHR 0x0A]) [0..<128]) \<and>
           length (filter ((=) CHR 0x0A) out) = 128 \<and>
           length (filter (\<lambda>j. 32 \<le> j \<and> j \<le> 126) [0..<128]) = 95 \<and>
           length (filter (\<lambda>j. \<not> (32 \<le> j \<and> j \<le> 126)) [0..<128]) = 33"
proof -
  from ascii_tree [OF assms]
  obtain t where t: "buildHuffmanTree ascii_characters P ASCII_SIZE = Inr t"
    "depth t \<le> 128"
    "\<forall>c. (of_char c :: nat) < 128 \<longrightarrow> (\<exists>p. code_paths t c = [p] \<and> p \<noteq> [])"
    by blast
  define code where "code j = hd (code_paths t (char_of j))" for j :: nat
  have code: "code_paths t (char_of j) = [code j] \<and> code j \<noteq> [] \<and>
              (char_of j, code j) \<in> set (paths t)" if "j < 128" for j
  proof -
    from that have "(of_char (char_of j) :: nat) < 128" by simp
    with t(3) obtain p where p: "code_paths t (char_of j) = [p]" "p \<noteq> []" by blast
    then have "code j = p" by (simp add: code_def)
    with p code_paths_iff [of p t "char_of j"] show ?thesis by simp
  qed
  let ?line = "\<lambda>j. if 32 \<le> j \<and> j \<le> 126 then render_bits (code j) @ [CHR 0x0A]
                     else ''No code'' @ [CHR 0x0A]"
  have le: "listing_entry t j = ?line j" if "j < 128" for j
    using code [OF that] by (simp add: listing_entry_def)
  have "map (listing_entry t) [0..<128] = map ?line [0..<128]"
    by (rule map_cong) (simp_all add: le)
  with generateAndPrintHuffmanCodes_loop_ok [OF t(2), of 0 "[]"]
  have run: "generateAndPrintHuffmanCodes P = Inr (concat (map ?line [0..<128]))"
    using t(1) by (simp add: generateAndPrintHuffmanCodes_def)
  have "\<forall>j\<in>set [0..<128]. length (filter ((=) CHR 0x0A) (?line j)) = 1"
    by (auto simp: render_bits_def filter_map comp_def)
  then have nl: "length (filter ((=) CHR 0x0A) (concat (map ?line [0..<128]))) = 128"
    using count_newlines_concat [of "[0..<128]" ?line] by simp
  have c95: "length (filter (\<lambda>j. 32 \<le> j \<and> j \<le> 126) [0..<128]) = 95"
    by code_simp
  have c33: "length (filter (\<lambda>j. \<not> (32 \<le> j \<and> j \<le> 126)) [0..<128]) = 33"
    by code_simp
  from t(1) code run nl c95 c33 show ?thesis
    by (intro exI [of _ t] exI [of _ code] exI [of _ "concat (map ?line [0..<128])"]) simp
qed

theorem code_listing_witness:
  "\<exists>t code out.
     buildHuffmanTree ascii_characters (replicate 128 (0::int)) ASCII_SIZE = Inr t \<and>
     generateAndPrintHuffmanCodes (replicate 128 (0::int)) = Inr out \<and>
     out = concat (map (\<lambda>j. if 32 \<le> j \<and> j \<le> 126
                              then render_bits (code j) @ [CHR 0x0A]
                              else ''No code'' @ [CHR 0x0A]) [0..<128]) \<and>
     length (filter ((=) CHR 0x0A) out) = 128"
  using code_listing [of "replicate 128 (0::int)"] by (simp; blast)

section \<open>Heap order\<close>

lemma smallest_nat_least:
  fixes k :: "nat \<Rightarrow> 'a::linorder"
  shows "k (smallest_nat k n j) \<le> k j \<and>
         (2 * j + 1 < n \<longrightarrow> k (smallest_nat k n j) \<le> k (2 * j + 1)) \<and>
         (2 * j + 2 < n \<longrightarrow> k (smallest_nat k n j) \<le> k (2 * j + 2))"
  by (auto simp: smallest_nat_def Let_def)

lemma down_done:
  fixes k :: "nat \<Rightarrow> 'a::linorder"
  assumes "down_pre k n lo j" "smallest_nat k n j = j"
  shows "ord_from k n lo"
proof -
  have "children_ok k n j"
    using smallest_nat_least [of k n j] assms(2) by (simp add: children_ok_def)
  with assms(1) show ?thesis
    unfolding ord_from_def down_pre_def by metis
qed

lemma down_step:
  fixes k :: "nat \<Rightarrow> 'a::linorder"
  assumes pre: "down_pre k n lo j" and s: "s = smallest_nat k n j" and ne: "s \<noteq> j"
    and lo: "lo \<le> j"
  shows "down_pre (k(j := k s, s := k j)) n lo s"
proof -
  let ?k = "k(j := k s, s := k j)"
  from smallest_nat_cases [of k n j] s ne
  have sc: "s = 2 * j + 1 \<or> s = 2 * j + 2" "s < n" by auto
  then have js: "j < s" "(s - 1) div 2 = j" by auto
  note least = smallest_nat_least [of k n j, folded s]
  have "k s < k j"
    using s ne by (auto simp: smallest_nat_def Let_def split: if_splits)
  have a: "children_ok ?k n i" if i: "lo \<le> i" "i < n" "i \<noteq> s" for i
  proof (cases "i = j")
    case True
    show ?thesis
      unfolding children_ok_def True
      using least sc js \<open>k s < k j\<close> by auto
  next
    case False
    with pre i have c: "children_ok k n i" by (simp add: down_pre_def)
    show ?thesis
    proof (cases "2 * i + 1 = j \<or> 2 * i + 2 = j")
      case True
      then have p: "(j - 1) div 2 = i" "0 < j" by auto
      with pre i(1) sc have "k i \<le> k s"
        unfolding down_pre_def by auto
      with c True False i(3) sc show ?thesis
        unfolding children_ok_def by auto
    next
      case nj: False
      have "2 * i + 1 \<noteq> s" "2 * i + 2 \<noteq> s" using sc False by auto
      with c nj False i(3) show ?thesis
        unfolding children_ok_def by auto
    qed
  qed
  have b: "(2 * s + 1 < n \<longrightarrow> ?k ((s - 1) div 2) \<le> ?k (2 * s + 1)) \<and>
           (2 * s + 2 < n \<longrightarrow> ?k ((s - 1) div 2) \<le> ?k (2 * s + 2))"
  proof -
    have "children_ok k n s"
      using pre lo js sc(2) ne by (simp add: down_pre_def)
    then show ?thesis
      unfolding children_ok_def js(2) using js(1) by auto
  qed
  show ?thesis
    unfolding down_pre_def using a b by blast
qed

lemma heap_ordered_ord_from: "heap_ordered h = ord_from (key h) (unat (size_h h)) 0"
  by (simp add: heap_ordered_def ord_from_def children_ok_def)

lemma key_swapped:
  assumes "a < length (array h)" "b < length (array h)"
  shows "key (swapped h a b) = (key h)(b := key h a, a := key h b)"
  using assms by (auto simp: key_def fun_eq_iff nth_list_update)

lemma minHeapify_order:
  fixes h :: "('f::linorder) MinHeap"
  assumes "wf_heap h" "i < 2 ^ 30"
  shows "\<exists>h'. minHeapify h (int i) = Inr h' \<and> size_h h' = size_h h \<and>
           (\<forall>lo \<le> i. down_pre (key h) (unat (size_h h)) lo i \<longrightarrow>
                     ord_from (key h') (unat (size_h h)) lo)"
proof -
  let ?P = "\<lambda>(h :: 'f MinHeap) i h'. size_h h' = size_h h \<and>
           (\<forall>lo \<le> i. down_pre (key h) (unat (size_h h)) lo i \<longrightarrow>
                     ord_from (key h') (unat (size_h h)) lo)"
  show ?thesis
  proof (rule minHeapify_wf_rule [OF assms, where P = ?P], goal_cases)
    case (1 h i)
    then show ?case using down_done by blast
  next
    case (2 h i s h')
    let ?n = "unat (size_h h)"
    have len: "s < length (array h)" "i < length (array h)"
      using 2(5,6) wf_heap_size [OF 2(1)] by auto
    have ks: "key (swapped h s i) = (key h)(i := key h s, s := key h i)"
      by (rule key_swapped [OF len])
    have "ord_from (key h') ?n lo" if lo: "lo \<le> i" and pre: "down_pre (key h) ?n lo i" for lo
    proof -
      have "down_pre (key (swapped h s i)) ?n lo s"
        unfolding ks by (rule down_step [OF pre 2(3,4) lo])
      moreover have "lo \<le> s" using lo 2(6) by auto
      ultimately show ?thesis using 2(8) by simp
    qed
    with 2(8) show ?case by simp
  qed
qed

text \<open>In an ordered heap the node at position 0 has the least frequency.\<close>

lemma ord_from_0_min:
  fixes k :: "nat \<Rightarrow> 'a::linorder"
  assumes "ord_from k n 0" "i < n"
  shows "k 0 \<le> k i"
  using assms(2)
proof (induction i rule: less_induct)
  case (less i)
  show ?case
  proof (cases "i = 0")
    case True
    then show ?thesis by simp
  next
    case False
    let ?p = "(i - 1) div 2"
    have p: "?p < i" "i = 2 * ?p + 1 \<or> i = 2 * ?p + 2" using False by auto
    then have "?p < n" using less.prems by simp
    with assms(1) have "children_ok k n ?p" by (simp add: ord_from_def)
    with p(2) less.prems have "k ?p \<le> k i"
      unfolding children_ok_def by metis
    moreover have "k 0 \<le> k ?p" using less.IH [OF p(1)] \<open>?p < n\<close> by simp
    ultimately show ?thesis by simp
  qed
qed

lemma key_moved_last:
  assumes "0 < i"
  shows "key (moved_last h) i = key h i"
  using assms by (simp add: key_def moved_last_def)

lemma extractMin_order:
  fixes h :: "('f::linorder) MinHeap"
  assumes "wf_heap h" "size_h h \<noteq> 0" "heap_ordered h"
  shows "\<exists>h'. extractMin h = Inr (the (array h ! 0), h') \<and> heap_ordered h' \<and>
           (\<forall>i < unat (size_h h). freq (the (array h ! 0)) \<le> key h i)"
proof -
  let ?n = "unat (size_h h)"
  let ?m = "moved_last h"
  from extractMin_wf [OF assms(1,2)]
  obtain h' where h': "extractMin h = Inr (the (array h ! 0), h')"
    "minHeapify ?m 0 = Inr h'" "size_h h' = size_h h - 1"
    by blast
  have sm: "unat (size_h ?m) = ?n - 1"
    using unat_pred32 [OF assms(2)] by (simp add: moved_last_def)
  have o: "ord_from (key h) ?n 0" using assms(3) by (simp add: heap_ordered_ord_from)
  have "children_ok (key ?m) (?n - 1) i" if "i < ?n - 1" "i \<noteq> 0" for i
  proof -
    from o that have "children_ok (key h) ?n i" by (simp add: ord_from_def)
    then show ?thesis
      using that unfolding children_ok_def by (simp add: key_moved_last)
  qed
  then have pre: "down_pre (key ?m) (unat (size_h ?m)) 0 0"
    unfolding sm by (simp add: down_pre_def)
  from minHeapify_order [OF wf_heap_moved_last [OF assms(1,2)], of 0] h'(2) pre
  have "ord_from (key h') (unat (size_h ?m)) 0" by auto
  then have "heap_ordered h'"
    unfolding heap_ordered_ord_from h'(3) by (simp add: moved_last_def)
  moreover have "freq (the (array h ! 0)) \<le> key h i" if "i < ?n" for i
    using ord_from_0_min [OF o that] by (simp add: key_def)
  ultimately show ?thesis using h'(1) by blast
qed

lemma ord_from_0_parent:
  "ord_from k n 0 = (\<forall>c. 0 < c \<and> c < n \<longrightarrow> k ((c - 1) div 2) \<le> k c)"
proof
  assume o: "ord_from k n 0"
  show "\<forall>c. 0 < c \<and> c < n \<longrightarrow> k ((c - 1) div 2) \<le> k c"
  proof (intro allI impI)
    fix c assume c: "0 < c \<and> c < n"
    let ?p = "(c - 1) div 2"
    have p: "?p < n" "c = 2 * ?p + 1 \<or> c = 2 * ?p + 2" using c by auto
    with o have "children_ok k n ?p" by (simp add: ord_from_def)
    with p(2) c show "k ?p \<le> k c" unfolding children_ok_def by metis
  qed
next
  assume a: "\<forall>c. 0 < c \<and> c < n \<longrightarrow> k ((c - 1) div 2) \<le> k c"
  show "ord_from k n 0"
    unfolding ord_from_def children_ok_def
  proof (intro allI impI conjI)
    fix i assume "2 * i + 1 < n"
    with a [rule_format, of "2 * i + 1"] show "k i \<le> k (2 * i + 1)" by simp
  next
    fix i assume "2 * i + 2 < n"
    with a [rule_format, of "2 * i + 2"] show "k i \<le> k (2 * i + 2)" by simp
  qed
qed

lemma up_start:
  fixes k :: "nat \<Rightarrow> 'a::linorder"
  assumes "ord_from k m 0"
  shows "up_inv k (m + 1) x m"
proof -
  have "k ((c - 1) div 2) \<le> k c" if "0 < c" "c < m" for c
    using assms that unfolding ord_from_0_parent by simp
  moreover have "(c - 1) div 2 \<noteq> m" if "0 < c" "c < m + 1" for c
    using that by auto
  moreover have "c < m" if "c < m + 1" "c \<noteq> m" for c
    using that by simp
  ultimately show ?thesis
    unfolding up_inv_def by blast
qed

lemma up_step:
  fixes k :: "nat \<Rightarrow> 'a::linorder"
  assumes inv: "up_inv k n x i" and i: "0 < i" "i < n" and lt: "x < k ((i - 1) div 2)"
  shows "up_inv (k(i := k ((i - 1) div 2))) n x ((i - 1) div 2)"
proof -
  let ?p = "(i - 1) div 2"
  let ?k = "k(i := k ?p)"
  have pi: "?p < i" using i by auto
  note a = inv [unfolded up_inv_def, THEN conjunct1, rule_format]
  note b = inv [unfolded up_inv_def, THEN conjunct2, THEN conjunct1, rule_format]
  note c = inv [unfolded up_inv_def, THEN conjunct2, THEN conjunct2, rule_format]
  have A: "?k ((c - 1) div 2) \<le> ?k c"
    if h: "0 < c" "c < n" "c \<noteq> ?p" "(c - 1) div 2 \<noteq> ?p" for c
  proof (cases "(c - 1) div 2 = i")
    case True
    then have "c \<noteq> i" using h(1) by auto
    with c [of c] h True i(1) show ?thesis by simp
  next
    case False
    have "c \<noteq> i" using h(4) by auto
    with a [of c] h False show ?thesis by simp
  qed
  have sib: "k ?p \<le> k c" if h: "0 < c" "c < n" "(c - 1) div 2 = ?p" "c \<noteq> i" for c
    using a [of c] h pi by simp
  have B: "x \<le> ?k c" if h: "0 < c" "c < n" "(c - 1) div 2 = ?p" for c
  proof (cases "c = i")
    case True
    with lt show ?thesis by simp
  next
    case False
    with sib [OF h] lt show ?thesis by simp
  qed
  have C: "?k ((?p - 1) div 2) \<le> ?k c"
    if h: "0 < c" "c < n" "(c - 1) div 2 = ?p" "0 < ?p" for c
  proof -
    have pp: "(?p - 1) div 2 < ?p" using h(4) by auto
    have "k ((?p - 1) div 2) \<le> k ?p"
      using a [of ?p] h(4) pi i(2) pp by simp
    moreover have "?k c = k ?p \<or> k ?p \<le> ?k c"
      using sib [OF h(1,2,3)] by (cases "c = i") simp_all
    moreover have "?k ((?p - 1) div 2) = k ((?p - 1) div 2)"
      using pp pi by simp
    ultimately show ?thesis by auto
  qed
  show ?thesis
    unfolding up_inv_def using A B C by blast
qed

lemma up_done:
  fixes k :: "nat \<Rightarrow> 'a::linorder"
  assumes inv: "up_inv k n x i" and stop: "i = 0 \<or> \<not> x < k ((i - 1) div 2)"
  shows "ord_from (k(i := x)) n 0"
  unfolding ord_from_0_parent
proof (intro allI impI)
  fix c assume h: "0 < c \<and> c < n"
  note a = inv [unfolded up_inv_def, THEN conjunct1, rule_format]
  note b = inv [unfolded up_inv_def, THEN conjunct2, THEN conjunct1, rule_format]
  let ?k = "k(i := x)"
  show "?k ((c - 1) div 2) \<le> ?k c"
  proof (cases "c = i")
    case True
    with h stop have "(i - 1) div 2 \<noteq> i" "k ((i - 1) div 2) \<le> x" by auto
    with True show ?thesis by simp
  next
    case False
    show ?thesis
    proof (cases "(c - 1) div 2 = i")
      case True
      with b [of c] h False show ?thesis by simp
    next
      case pf: False
      with a [of c] h False show ?thesis by simp
    qed
  qed
qed

lemma key_shifted:
  assumes "i < length (array h)"
  shows "key (shifted h i) = (key h)(i := key h ((i - 1) div 2))"
  using assms by (auto simp: key_def fun_eq_iff nth_list_update)

lemma insertMinHeap_loop_order:
  fixes h :: "('f::linorder) MinHeap"
  assumes "hole_heap h i"
  shows "\<exists>h' j. insertMinHeap_loop h nd (int i) = Inr (h', int j) \<and>
           (up_inv (key h) (unat (size_h h)) (freq nd) i \<longrightarrow>
              up_inv (key h') (unat (size_h h)) (freq nd) j \<and>
              (j = 0 \<or> \<not> freq nd < key h' ((j - 1) div 2)))"
proof -
  let ?P = "\<lambda>(h :: 'f MinHeap) i h' j.
           (up_inv (key h) (unat (size_h h)) (freq nd) i \<longrightarrow>
              up_inv (key h') (unat (size_h h)) (freq nd) j \<and>
              (j = 0 \<or> \<not> freq nd < key h' ((j - 1) div 2)))"
  show ?thesis
  proof (rule insertMinHeap_loop_rule [OF assms, where P = ?P], goal_cases)
    case (1 h i)
    then show ?case by simp
  next
    case (2 h i h' j)
    let ?n = "unat (size_h h)"
    have i: "0 < i" "i < ?n" "i < length (array h)"
      using 2(1,2) hole_heap_size [OF 2(1)] by (simp_all add: hole_heap_def)
    have "up_inv (key (shifted h i)) ?n (freq nd) ((i - 1) div 2)"
      if inv: "up_inv (key h) ?n (freq nd) i"
      unfolding key_shifted [OF i(3)] by (rule up_step [OF inv i(1,2) 2(3)])
    with 2(5) show ?case by simp
  qed
qed

lemma insertMinHeap_order:
  fixes h :: "('f::linorder) MinHeap"
  assumes "wf_heap h" "size_h h < capacity h" "heap_ordered h"
  shows "\<exists>h'. insertMinHeap h nd = Inr h' \<and> heap_ordered h'"
proof -
  let ?m = "unat (size_h h)"
  let ?h1 = "h\<lparr>size_h := size_h h + 1\<rparr>"
  have n: "unat (size_h h + 1) = ?m + 1" by (rule unat_succ32 [OF assms(2)])
  have m: "?m < unat (capacity h)" "?m < 2 ^ 30" "?m \<le> length (array h)"
    "length (array h) = unat (capacity h)"
    using assms wf_heap_size [OF assms(1)] unfolding word_less_nat_alt wf_heap_def by simp_all
  have le: "size_h h + 1 \<le> capacity h"
    unfolding word_le_nat_alt n using m(1) by simp
  have hh: "hole_heap ?h1 ?m"
    using assms(1) m le n by (auto simp: hole_heap_def wf_heap_def)
  have start: "sint (size_h h) = uint (size_h h)"
    using sint32_small [of "size_h h"] m(2) by simp
  have k1: "key ?h1 = key h" by (simp add: key_def fun_eq_iff)
  have inv: "up_inv (key ?h1) (?m + 1) (freq nd) ?m"
    unfolding k1 using assms(3) by (intro up_start) (simp add: heap_ordered_ord_from)
  from insertMinHeap_loop_order [OF hh, of nd] inv
  obtain h2 j where l: "insertMinHeap_loop ?h1 nd (int ?m) = Inr (h2, int j)"
    "up_inv (key h2) (?m + 1) (freq nd) j" "j = 0 \<or> \<not> freq nd < key h2 ((j - 1) div 2)"
    by (auto simp: n)
  from insertMinHeap_loop_wf [OF hh, of nd] l(1)
  have s: "hole_heap h2 j" "size_h h2 = size_h h + 1"
    by auto
  let ?h' = "h2\<lparr>array := (array h2)[j := Some nd]\<rparr>"
  have j: "j < length (array h2)" using hole_heap_size [OF s(1)] by simp
  then have w: "wr h2 (int j) nd = Inr ?h'" by (simp add: wr_def)
  have r: "insertMinHeap h nd = Inr ?h'"
    using l(1) w by (simp add: insertMinHeap_def Let_def start)
  have "key ?h' = (key h2)(j := freq nd)"
    using j by (auto simp: key_def fun_eq_iff nth_list_update)
  with up_done [OF l(2,3)] have "ord_from (key ?h') (?m + 1) 0" by simp
  then have "heap_ordered ?h'"
    by (simp add: heap_ordered_ord_from s(2) n)
  with r show ?thesis by blast
qed

lemma buildMinHeap_loop_order:
  fixes h :: "('f::linorder) MinHeap"
  assumes "wf_heap h" "k \<le> 2 ^ 30" "ord_from (key h) (unat (size_h h)) k"
  shows "\<exists>h'. buildMinHeap_loop h (int k - 1) = Inr h' \<and> size_h h' = size_h h \<and>
           ord_from (key h') (unat (size_h h)) 0"
  using assms
proof (induction k arbitrary: h)
  case 0
  then show ?case by (subst buildMinHeap_loop.simps) simp
next
  case (Suc k)
  let ?n = "unat (size_h h)"
  from Suc.prems have k: "k < 2 ^ 30" by simp
  from minHeapify_order [OF Suc.prems(1) k]
  obtain h1 where h1: "minHeapify h (int k) = Inr h1" "size_h h1 = size_h h"
    "\<forall>lo \<le> k. down_pre (key h) ?n lo k \<longrightarrow> ord_from (key h1) ?n lo"
    by blast
  from minHeapify_wf [OF Suc.prems(1) k] h1(1) have wf1: "wf_heap h1" by auto
  have "children_ok (key h) ?n i" if "k \<le> i" "i < ?n" "i \<noteq> k" for i
    using Suc.prems(3) that by (simp add: ord_from_def)
  moreover have "\<not> (0 < k \<and> k \<le> (k - 1) div 2)" by auto
  ultimately have "down_pre (key h) ?n k k"
    unfolding down_pre_def by blast
  with h1(3) have o1: "ord_from (key h1) (unat (size_h h1)) k" by (simp add: h1(2))
  from Suc.IH [OF wf1 _ o1] k
  obtain h' where h': "buildMinHeap_loop h1 (int k - 1) = Inr h'" "size_h h' = size_h h1"
    "ord_from (key h') (unat (size_h h1)) 0"
    by auto
  have "buildMinHeap_loop h (int (Suc k) - 1) = Inr h'"
    using h1(1) h'(1) by (subst buildMinHeap_loop.simps) simp
  with h1(2) h' show ?case by auto
qed

lemma buildMinHeap_order:
  fixes h :: "('f::linorder) MinHeap"
  assumes "wf_heap h"
  shows "\<exists>h'. buildMinHeap h = Inr h' \<and> heap_ordered h'"
proof -
  let ?n = "unat (size_h h)"
  have "?n div 2 \<le> ?n" by simp
  then have c: "heapify_count h \<le> 2 ^ 30"
    using wf_heap_size [OF assms] by (auto simp: heapify_count_def)
  have z: "(size_h h = 1) = (?n = 1)" by (simp add: word_unat_eq_iff)
  have "children_ok (key h) ?n i" if "heapify_count h \<le> i" "i < ?n" for i
  proof -
    from that have "?n \<le> 2 * i + 1"
      unfolding heapify_count_def z by (auto split: if_splits)
    then show ?thesis by (simp add: children_ok_def)
  qed
  then have "ord_from (key h) ?n (heapify_count h)" by (simp add: ord_from_def)
  from buildMinHeap_loop_order [OF assms c this]
  obtain h' where "buildMinHeap_loop h (int (heapify_count h) - 1) = Inr h'"
    "size_h h' = size_h h" "ord_from (key h') ?n 0"
    by blast
  then show ?thesis
    by (auto simp: buildMinHeap_def Let_def buildMinHeap_start [OF assms] heap_ordered_ord_from)
qed

lemma createAndBuildMinHeap_unfold:
  fixes frs :: "('f::ord) list"
  assumes "n < 2 ^ 30" "n \<le> length its" "n \<le> length frs"
  shows "createAndBuildMinHeap its frs (int n) = buildMinHeap (filled_heap its frs n)"
    and "wf_heap (filled_heap its frs n)"
proof -
  let ?h0 = "createMinH (of_nat n) :: 'f MinHeap"
  have u: "unat (of_nat n :: 32 word) = n" using assms(1) by (intro unat_of_nat32) simp
  let ?arr = "map (\<lambda>j. Some (newNode (its ! j) (frs ! j))) [0..<n]"
  have "createAndBuildMinHeap_fill ?h0 its frs (int n) (int 0) =
          Inr (?h0\<lparr>array := take 0 (array ?h0) @ ?arr @ drop n (array ?h0)\<rparr>)"
    using assms by (intro createAndBuildMinHeap_fill_ok) (simp_all add: createMinH_def u)
  then have f: "createAndBuildMinHeap_fill ?h0 its frs (int n) 0 = Inr (?h0\<lparr>array := ?arr\<rparr>)"
    by (simp add: createMinH_def u)
  show "createAndBuildMinHeap its frs (int n) = buildMinHeap (filled_heap its frs n)"
    using f by (simp add: createAndBuildMinHeap_def filled_heap_def createMinH_def)
  show "wf_heap (filled_heap its frs n)"
    using assms(1) by (simp add: wf_heap_def filled_heap_def u)
qed

lemma createAndBuildMinHeap_order:
  fixes frs :: "('f::linorder) list"
  assumes "n < 2 ^ 30" "n \<le> length its" "n \<le> length frs"
  shows "\<exists>h. createAndBuildMinHeap its frs (int n) = Inr h \<and> wf_heap h \<and> heap_ordered h \<and>
           size_h h = of_nat n"
proof -
  note u = createAndBuildMinHeap_unfold [OF assms]
  from buildMinHeap_order [OF u(2)]
  obtain h where h: "buildMinHeap (filled_heap its frs n) = Inr h" "heap_ordered h"
    by blast
  from buildMinHeap_wf [OF u(2)] h(1)
  have "wf_heap h" "size_h h = of_nat n" by (auto simp: filled_heap_def)
  with h u(1) show ?thesis by simp
qed

subsection \<open>Calls outside the preconditions\<close>

lemma extractMin_empty:
  fixes h :: "('f::ord) MinHeap"
  assumes "wf_heap h" "size_h h = 0"
  shows "\<exists>e. extractMin h = Inl e"
proof -
  have "length (array h) < 2 ^ 30" using assms(1) by (simp add: wf_heap_def)
  moreover have "uint (- 1 :: 32 word) = 4294967295"
    by (simp add: unsigned_minus_1_eq_mask mask_eq_exp_minus_1)
  ultimately have "\<not> uint (0 - 1 :: 32 word) < int (length (array h))" by simp
  then have "\<exists>e. rd h (uint (size_h h - 1)) = Inl e"
    by (simp add: rd_def assms(2))
  then show ?thesis
    by (auto simp: extractMin_def split: sum.splits)
qed

lemma insertMinHeap_loop_outside:
  fixes h :: "('f::ord) MinHeap"
  assumes "int (length (array h)) \<le> i" "insertMinHeap_loop h nd i = Inr (h', j)"
  shows "h' = h \<and> j = i"
proof -
  have "wr h i p = Inl (OutOfBounds i)" for p
    using assms(1) by (simp add: wr_def)
  with assms(2) show ?thesis
    by (subst (asm) insertMinHeap_loop.simps) (auto split: if_splits sum.splits)
qed

lemma insertMinHeap_full:
  fixes h :: "('f::ord) MinHeap"
  assumes "wf_heap h" "\<not> size_h h < capacity h"
  shows "\<exists>e. insertMinHeap h nd = Inl e"
proof -
  have eq: "size_h h = capacity h"
    using assms by (auto simp: wf_heap_def)
  have len: "length (array h) = unat (size_h h)" "unat (size_h h) < 2 ^ 30"
    using assms(1) eq by (simp_all add: wf_heap_def)
  have start: "sint (size_h h) = uint (size_h h)"
    using sint32_small [of "size_h h"] len(2) by simp
  have ul: "uint (size_h h) = int (length (array h))"
    unfolding len(1) by (rule uint_nat)
  let ?h1 = "h\<lparr>size_h := size_h h + 1\<rparr>"
  show ?thesis
  proof (cases "insertMinHeap_loop ?h1 nd (uint (size_h h))")
    case (Inl e)
    then show ?thesis by (simp add: insertMinHeap_def Let_def start)
  next
    case (Inr x)
    obtain h2 j where x: "x = (h2, j)" by (cases x)
    have "int (length (array ?h1)) \<le> uint (size_h h)" using ul by simp
    from insertMinHeap_loop_outside [OF this Inr [unfolded x]]
    have "h2 = ?h1" "j = uint (size_h h)" by simp_all
    then have "wr h2 j nd = Inl (OutOfBounds j)" using ul by (simp add: wr_def)
    with Inr x show ?thesis by (simp add: insertMinHeap_def Let_def start)
  qed
qed

section \<open>The contract of extractMin\<close>

text \<open>
  C2, as stated, fails in its first part: the code has no test for an empty heap and no
  error to report. On a heap with \<open>size = 0\<close> (here: after its only node was extracted)
  \<^verbatim>\<open>extractMin\<close> reads \<^verbatim>\<open>array[size - 1]\<close> with \<open>size - 1\<close> wrapped to \<open>2^32 - 1\<close>, outside the
  array.
\<close>

theorem extractMin_empty_counterexample:
  "extractMin \<lparr>size_h = 0, capacity = 1, array = [Some (MinHNode CHR ''a'' (1::int) None None)]\<rparr>
   = Inl (OutOfBounds 4294967295)"
  by code_simp

text \<open>
  C2, amended. \<^verbatim>\<open>extractMin\<close> has the precondition \<open>size \<ge> 1\<close>, which it does not check: on
  a well-formed heap with \<open>size = 0\<close> it does not return but leaves the array (undefined
  behaviour in C). When the precondition holds it returns the node at position 0; the
  heap it returns is the result of \<^verbatim>\<open>minHeapify\<close> at position 0 on the heap in which the
  last logical element was moved to position 0 and \<open>size\<close> was decremented; the nodes left
  are the old ones without the returned node; and if the heap was ordered, the returned
  node has the minimum frequency and the heap left is ordered.
\<close>

theorem extractMin_contract:
  fixes h :: "('f::linorder) MinHeap"
  assumes "wf_heap h"
  shows "(size_h h = 0 \<longrightarrow> (\<exists>e. extractMin h = Inl e)) \<and>
         (size_h h \<noteq> 0 \<longrightarrow>
            (\<exists>h'. extractMin h = Inr (the (array h ! 0), h') \<and>
                  minHeapify (moved_last h) 0 = Inr h' \<and>
                  array (moved_last h) ! 0 = array h ! (unat (size_h h) - 1) \<and>
                  size_h (moved_last h) = size_h h - 1 \<and>
                  size_h h' = size_h h - 1 \<and> wf_heap h' \<and>
                  add_mset (the (array h ! 0)) (nodes h') = nodes h \<and>
                  (heap_ordered h \<longrightarrow>
                     heap_ordered h' \<and>
                     (\<forall>i < unat (size_h h). freq (the (array h ! 0)) \<le> key h i))))"
proof (intro conjI impI)
  assume "size_h h = 0"
  with assms show "\<exists>e. extractMin h = Inl e" by (rule extractMin_empty)
next
  assume ne: "size_h h \<noteq> 0"
  from extractMin_wf [OF assms ne]
  obtain h' where h': "extractMin h = Inr (the (array h ! 0), h')"
    "minHeapify (moved_last h) 0 = Inr h'" "wf_heap h'" "size_h h' = size_h h - 1"
    "add_mset (the (array h ! 0)) (nodes h') = nodes h"
    by blast
  have "0 < unat (size_h h)" by (rule unat_pos32 [OF ne])
  then have "0 < length (array h)" using wf_heap_size [OF assms] by linarith
  then have m: "array (moved_last h) ! 0 = array h ! (unat (size_h h) - 1)"
    "size_h (moved_last h) = size_h h - 1"
    by (simp_all add: moved_last_def)
  have "heap_ordered h' \<and> (\<forall>i < unat (size_h h). freq (the (array h ! 0)) \<le> key h i)"
    if "heap_ordered h"
    using extractMin_order [OF assms ne that] h'(1) by auto
  with h' m show "\<exists>h'. extractMin h = Inr (the (array h ! 0), h') \<and>
                  minHeapify (moved_last h) 0 = Inr h' \<and>
                  array (moved_last h) ! 0 = array h ! (unat (size_h h) - 1) \<and>
                  size_h (moved_last h) = size_h h - 1 \<and>
                  size_h h' = size_h h - 1 \<and> wf_heap h' \<and>
                  add_mset (the (array h ! 0)) (nodes h') = nodes h \<and>
                  (heap_ordered h \<longrightarrow>
                     heap_ordered h' \<and>
                     (\<forall>i < unat (size_h h). freq (the (array h ! 0)) \<le> key h i))"
    by (intro exI [of _ h']) simp
qed

lemma less_2_cases_nat: "(i::nat) < 2 \<Longrightarrow> i = 0 \<or> i = 1"
  by auto

theorem extractMin_contract_witness:
  "wf_heap \<lparr>size_h = 2, capacity = 2,
            array = [Some (MinHNode CHR ''a'' (1::int) None None),
                     Some (MinHNode CHR ''b'' 2 None None)]\<rparr> \<and>
   (\<exists>h'. extractMin \<lparr>size_h = 2, capacity = 2,
            array = [Some (MinHNode CHR ''a'' (1::int) None None),
                     Some (MinHNode CHR ''b'' 2 None None)]\<rparr>
         = Inr (MinHNode CHR ''a'' 1 None None, h') \<and> size_h h' = 1 \<and> heap_ordered h')"
proof -
  let ?h = "\<lparr>size_h = 2, capacity = 2,
            array = [Some (MinHNode CHR ''a'' (1::int) None None),
                     Some (MinHNode CHR ''b'' 2 None None)]\<rparr>"
  have wf: "wf_heap ?h"
    by (auto simp: wf_heap_def dest!: less_2_cases_nat)
  have o: "heap_ordered ?h"
    by (auto simp: heap_ordered_def key_def dest!: less_2_cases_nat)
  have ne: "size_h ?h \<noteq> 0" by simp
  from extractMin_contract [OF wf] ne o
  have "\<exists>h'. extractMin ?h = Inr (the (array ?h ! 0), h') \<and> size_h h' = size_h ?h - 1 \<and>
          heap_ordered h'"
    by blast
  with wf show ?thesis by simp
qed

section \<open>The heap ordering invariant\<close>

lemma apply_ops_invariant:
  fixes h :: "('f::linorder) MinHeap"
  assumes "wf_heap h" "heap_ordered h" "apply_ops h ops = Inr h'"
  shows "wf_heap h' \<and> heap_ordered h'"
  using assms
proof (induction ops arbitrary: h)
  case Nil
  then show ?case by simp
next
  case (Cons op ops)
  show ?case
  proof (cases op)
    case (Insert nd)
    with Cons.prems(3) obtain h1 where h1: "insertMinHeap h nd = Inr h1"
      "apply_ops h1 ops = Inr h'"
      by (auto split: sum.splits)
    have lt: "size_h h < capacity h"
      using insertMinHeap_full [OF Cons.prems(1), of nd] h1(1) by auto
    from insertMinHeap_wf [OF Cons.prems(1) lt, of nd] h1(1) have "wf_heap h1" by auto
    moreover from insertMinHeap_order [OF Cons.prems(1) lt Cons.prems(2), of nd] h1(1)
    have "heap_ordered h1" by auto
    ultimately show ?thesis using Cons.IH h1(2) by blast
  next
    case ExtractMin
    with Cons.prems(3) obtain x h1 where h1: "extractMin h = Inr (x, h1)"
      "apply_ops h1 ops = Inr h'"
      by (auto split: sum.splits)
    have ne: "size_h h \<noteq> 0"
      using extractMin_empty [OF Cons.prems(1)] h1(1) by auto
    from extractMin_wf [OF Cons.prems(1) ne] h1(1) have "wf_heap h1" by auto
    moreover from extractMin_order [OF Cons.prems(1) ne Cons.prems(2)] h1(1)
    have "heap_ordered h1" by auto
    ultimately show ?thesis using Cons.IH h1(2) by blast
  qed
qed

lemma createMinH_ordered:
  "unat cap < 2 ^ 30 \<Longrightarrow>
     wf_heap (createMinH cap :: ('f::ord) MinHeap) \<and> heap_ordered (createMinH cap :: 'f MinHeap)"
  by (simp add: wf_heap_def heap_ordered_def createMinH_def)

text \<open>
  C4. On a well-formed heap that satisfies the min-heap ordering invariant, every sequence
  of \<^verbatim>\<open>insertMinHeap\<close> and \<^verbatim>\<open>extractMin\<close> calls that runs without a fault leaves a
  well-formed heap that satisfies the invariant. A call does not fault when its
  precondition holds (\<open>size < capacity\<close> for an insertion, \<open>size \<noteq> 0\<close> for an extraction).
  The empty heap of \<^verbatim>\<open>createMinH\<close> and the heap that \<^verbatim>\<open>createAndBuildMinHeap\<close> builds from
  \<open>sz\<close> symbols are well formed and satisfy the invariant. Frequencies are linearly
  ordered and heaps hold fewer than \<open>2^30\<close> nodes.
\<close>

theorem heap_order_invariant:
  fixes h :: "('f::linorder) MinHeap" and frs :: "('f::linorder) list"
  shows "(wf_heap h \<and> heap_ordered h \<and> apply_ops h ops = Inr h' \<longrightarrow>
            wf_heap h' \<and> heap_ordered h') \<and>
         (wf_heap h \<and> size_h h < capacity h \<longrightarrow> (\<exists>h1. insertMinHeap h nd = Inr h1)) \<and>
         (wf_heap h \<and> size_h h \<noteq> 0 \<longrightarrow> (\<exists>x h1. extractMin h = Inr (x, h1))) \<and>
         (0 \<le> sz \<and> sz < 2 ^ 30 \<and> nat sz \<le> length its \<and> nat sz \<le> length frs \<longrightarrow>
            (\<exists>hb. createAndBuildMinHeap its frs sz = Inr hb \<and> wf_heap hb \<and> heap_ordered hb)) \<and>
         (unat cap < 2 ^ 30 \<longrightarrow>
            wf_heap (createMinH cap :: 'f MinHeap) \<and> heap_ordered (createMinH cap :: 'f MinHeap))"
proof (intro conjI impI)
  assume a: "wf_heap h \<and> heap_ordered h \<and> apply_ops h ops = Inr h'"
  then show "wf_heap h'" "heap_ordered h'"
    using apply_ops_invariant [of h ops h'] by simp_all
next
  assume "wf_heap h \<and> size_h h < capacity h"
  then show "\<exists>h1. insertMinHeap h nd = Inr h1"
    using insertMinHeap_wf [of h nd] by blast
next
  assume "wf_heap h \<and> size_h h \<noteq> 0"
  then show "\<exists>x h1. extractMin h = Inr (x, h1)"
    using extractMin_wf [of h] by blast
next
  assume a: "0 \<le> sz \<and> sz < 2 ^ 30 \<and> nat sz \<le> length its \<and> nat sz \<le> length frs"
  then have "nat sz < 2 ^ 30" "int (nat sz) = sz" by (simp_all add: nat_less_iff)
  with a createAndBuildMinHeap_order [of "nat sz" its frs]
  show "\<exists>hb. createAndBuildMinHeap its frs sz = Inr hb \<and> wf_heap hb \<and> heap_ordered hb"
    by auto
next
  assume "unat cap < 2 ^ 30"
  then show "wf_heap (createMinH cap :: 'f MinHeap)" "heap_ordered (createMinH cap :: 'f MinHeap)"
    using createMinH_ordered [of cap, where ?'f = 'f] by simp_all
qed

theorem heap_order_invariant_witness:
  "\<exists>hb h'. createAndBuildMinHeap ''abc'' [3, 1, 2 :: int] 3 = Inr hb \<and>
      wf_heap hb \<and> heap_ordered hb \<and>
      apply_ops hb [ExtractMin, ExtractMin, Insert (MinHNode CHR ''$'' 3 None None), ExtractMin]
        = Inr h' \<and>
      wf_heap h' \<and> heap_ordered h'"
proof -
  let ?ops = "[ExtractMin, ExtractMin, Insert (MinHNode CHR ''$'' (3::int) None None), ExtractMin]"
  note t = heap_order_invariant [where sz = 3 and its = "''abc''" and frs = "[3, 1, 2 :: int]"
      and ops = ?ops]
  from t [THEN conjunct2, THEN conjunct2, THEN conjunct2, THEN conjunct1]
  obtain hb where hb: "createAndBuildMinHeap ''abc'' [3, 1, 2 :: int] 3 = Inr hb"
    "wf_heap hb" "heap_ordered hb"
    by auto
  have "case createAndBuildMinHeap ''abc'' [3, 1, 2 :: int] 3 of Inl e \<Rightarrow> False
        | Inr b \<Rightarrow> (case apply_ops b ?ops of Inl e \<Rightarrow> False | Inr r \<Rightarrow> True)"
    by code_simp
  with hb(1) obtain h' where h': "apply_ops hb ?ops = Inr h'"
    by (auto split: sum.splits)
  from heap_order_invariant [of hb ?ops h', THEN conjunct1] hb(2,3) h'
  have "wf_heap h' \<and> heap_ordered h'" by blast
  with hb h' show ?thesis by blast
qed

end
